theory Spec2Isabelle
  imports Main "HOL-Library.Sublist" "HOL-Library.AList"
begin

section \<open>JavaScript strings\<close>

text \<open>
  A JavaScript string is a sequence of UTF-16 code units.  The two regular expressions of
  \<^verbatim>\<open>syncEngine.ts\<close> carry no \<^verbatim>\<open>u\<close> flag, so they work on code units as well: the
  calendar and the bust emoji are two code units each, and \<^verbatim>\<open>.\<close> consumes one code unit.
  A code unit is modelled by its number; ASCII literals are written with \<open>js\<close>.
\<close>

type_synonym jschar = nat
type_synonym jsstring = "jschar list"

definition js :: "string \<Rightarrow> jsstring" where
  "js s = map of_char s"

text \<open>U+1F4C5 (calendar) and U+1F464 (bust in silhouette) as surrogate pairs.\<close>

definition CALENDAR :: jsstring where
  "CALENDAR = [0xD83D, 0xDCC5]"

definition BUST :: jsstring where
  "BUST = [0xD83D, 0xDC64]"

text \<open>The character classes \<^verbatim>\<open>\s\<close>, \<^verbatim>\<open>.\<close>, \<^verbatim>\<open>\d\<close> and \<^verbatim>\<open>\w\<close> of ECMAScript.\<close>

definition is_line_terminator :: "jschar \<Rightarrow> bool" where
  "is_line_terminator c \<longleftrightarrow> c = 0x0A \<or> c = 0x0D \<or> c = 0x2028 \<or> c = 0x2029"

definition is_space :: "jschar \<Rightarrow> bool" where
  "is_space c \<longleftrightarrow>
     c = 0x09 \<or> c = 0x0A \<or> c = 0x0B \<or> c = 0x0C \<or> c = 0x0D \<or> c = 0x20 \<or> c = 0xA0 \<or>
     c = 0x1680 \<or> (0x2000 \<le> c \<and> c \<le> 0x200A) \<or> c = 0x2028 \<or> c = 0x2029 \<or>
     c = 0x202F \<or> c = 0x205F \<or> c = 0x3000 \<or> c = 0xFEFF"

definition is_dot :: "jschar \<Rightarrow> bool" where
  "is_dot c \<longleftrightarrow> \<not> is_line_terminator c"

definition is_digit :: "jschar \<Rightarrow> bool" where
  "is_digit c \<longleftrightarrow> 0x30 \<le> c \<and> c \<le> 0x39"

definition is_word :: "jschar \<Rightarrow> bool" where
  "is_word c \<longleftrightarrow>
     (0x41 \<le> c \<and> c \<le> 0x5A) \<or> (0x61 \<le> c \<and> c \<le> 0x7A) \<or> is_digit c \<or> c = 0x5F"

text \<open>\<^verbatim>\<open>[ xX]\<close>, the class of the checkbox mark.\<close>

definition is_mark :: "jschar \<Rightarrow> bool" where
  "is_mark c \<longleftrightarrow> c = 0x20 \<or> c = 0x78 \<or> c = 0x58"

text \<open>\<^verbatim>\<open>String.prototype.trim\<close> strips white space and line terminators at both ends.\<close>

definition trim :: "jsstring \<Rightarrow> jsstring" where
  "trim s = rev (dropWhile is_space (rev (dropWhile is_space s)))"

definition startsWith :: "jsstring \<Rightarrow> jsstring \<Rightarrow> bool" where
  "startsWith s p = prefix p s"

text \<open>\<^verbatim>\<open>content.split("\n")\<close> and \<^verbatim>\<open>lines.join("\n")\<close>.\<close>

fun split_nl :: "jsstring \<Rightarrow> jsstring list" where
  "split_nl [] = [[]]"
| "split_nl (c # cs) =
     (if c = 0x0A then [] # split_nl cs
      else (c # hd (split_nl cs)) # tl (split_nl cs))"

fun join_nl :: "jsstring list \<Rightarrow> jsstring" where
  "join_nl [] = []"
| "join_nl [l] = l"
| "join_nl (l # ls) = l @ [0x0A] @ join_nl ls"

section \<open>A backtracking matcher for the regular expressions of the source\<close>

text \<open>
  The constructs the two patterns use: a literal, one character of a class, a greedy star
  and a greedy plus over a class, a lazy plus over a class, sequence, a greedy optional
  non-capturing group, a capturing group and the end anchor.
\<close>

datatype rx =
    Lit jsstring
  | Cls "jschar \<Rightarrow> bool"
  | StarG "jschar \<Rightarrow> bool"
  | PlusG "jschar \<Rightarrow> bool"
  | PlusL "jschar \<Rightarrow> bool"
  | Seq rx rx
  | OptG rx
  | Grp nat rx
  | Eol

type_synonym caps = "nat \<Rightarrow> jsstring option"
type_synonym mstate = "jsstring \<times> caps"

text \<open>
  The remainders a quantifier over a class can leave, in the order in which a backtracking
  engine tries them: a greedy quantifier the longest first, a lazy one the shortest first.
\<close>

fun star_greedy :: "(jschar \<Rightarrow> bool) \<Rightarrow> jsstring \<Rightarrow> jsstring list" where
  "star_greedy p [] = [[]]"
| "star_greedy p (x # xs) = (if p x then star_greedy p xs @ [x # xs] else [x # xs])"

fun plus_lazy :: "(jschar \<Rightarrow> bool) \<Rightarrow> jsstring \<Rightarrow> jsstring list" where
  "plus_lazy p [] = []"
| "plus_lazy p (x # xs) = (if p x then xs # plus_lazy p xs else [])"

text \<open>
  \<open>run r (s, c)\<close> lists every way in which \<open>r\<close> matches a prefix of \<open>s\<close>: the remainder
  and the captures, in the engine's order of preference.  The engine's answer is the first
  entry that lets the rest of the pattern succeed, which is the head of the list for the
  whole pattern.
\<close>

fun run :: "rx \<Rightarrow> mstate \<Rightarrow> mstate list" where
  "run (Lit l) (s, c) = (if prefix l s then [(drop (length l) s, c)] else [])"
| "run (Cls p) (s, c) = (case s of [] \<Rightarrow> [] | x # xs \<Rightarrow> if p x then [(xs, c)] else [])"
| "run (StarG p) (s, c) = map (\<lambda>s'. (s', c)) (star_greedy p s)"
| "run (PlusG p) (s, c) =
     (case s of [] \<Rightarrow> [] | x # xs \<Rightarrow> if p x then map (\<lambda>s'. (s', c)) (star_greedy p xs) else [])"
| "run (PlusL p) (s, c) = map (\<lambda>s'. (s', c)) (plus_lazy p s)"
| "run (Seq a b) st = concat (map (run b) (run a st))"
| "run (OptG a) st = run a st @ [st]"
| "run (Grp i a) (s, c) =
     map (\<lambda>(s', c'). (s', c'(i \<mapsto> take (length s - length s') s))) (run a (s, c))"
| "run Eol (s, c) = (if s = [] then [(s, c)] else [])"

fun seqs :: "rx list \<Rightarrow> rx" where
  "seqs [] = Lit []"
| "seqs [r] = r"
| "seqs (r # rs) = Seq r (seqs rs)"

text \<open>A match attempt at the start of the input, as a pattern that begins with \<^verbatim>\<open>^\<close> makes.\<close>

definition rx_exec_anchored :: "rx \<Rightarrow> jsstring \<Rightarrow> caps option" where
  "rx_exec_anchored r s =
     (case run r (s, \<lambda>_. None) of [] \<Rightarrow> None | (_, c) # _ \<Rightarrow> Some c)"

text \<open>An unanchored pattern is tried at every index from the left, the end included.\<close>

fun rx_exec :: "rx \<Rightarrow> jsstring \<Rightarrow> caps option" where
  "rx_exec r [] = rx_exec_anchored r []"
| "rx_exec r (x # xs) =
     (case rx_exec_anchored r (x # xs) of Some c \<Rightarrow> Some c | None \<Rightarrow> rx_exec r xs)"

section \<open>The task line codec (\<^verbatim>\<open>syncEngine.ts\<close>)\<close>

text \<open>
  Record fields carry a prefix (\<open>t_\<close> for \<^verbatim>\<open>AsanaTask\<close>, \<open>p_\<close> for \<^verbatim>\<open>ParsedTask\<close>,
  \<open>r_\<close> for the \<^verbatim>\<open>{gid, name}\<close> objects) because both interfaces have fields
  \<^verbatim>\<open>name\<close>, \<^verbatim>\<open>completed\<close> and \<^verbatim>\<open>assignee\<close>.
\<close>

record ref =
  r_gid :: jsstring
  r_name :: jsstring

record membership =
  m_project :: ref
  m_section :: ref

record AsanaTask =
  t_gid :: jsstring
  t_name :: jsstring
  t_completed :: bool
  t_due_on :: "jsstring option"
  t_assignee :: "ref option"
  t_permalink_url :: jsstring
  t_notes :: jsstring
  t_memberships :: "membership list"

record ParsedTask =
  p_line :: jsstring
  p_lineNumber :: nat
  p_completed :: bool
  p_name :: jsstring
  p_asanaGid :: "jsstring option"
  p_dueDate :: "jsstring option"
  p_assignee :: "jsstring option"

text \<open>\<^verbatim>\<open>\d{4}-\d{2}-\d{2}\<close>\<close>

definition DATE_RX :: rx where
  "DATE_RX = seqs [Cls is_digit, Cls is_digit, Cls is_digit, Cls is_digit, Lit (js ''-''),
                   Cls is_digit, Cls is_digit, Lit (js ''-''), Cls is_digit, Cls is_digit]"

text \<open>\<^verbatim>\<open>(?:\s*CALENDAR\s*(\d{4}-\d{2}-\d{2}))?\<close>\<close>

definition DUE_RX :: rx where
  "DUE_RX = seqs [StarG is_space, Lit CALENDAR, StarG is_space, Grp 5 DATE_RX]"

text \<open>\<^verbatim>\<open>(?:\s*BUST\s*(.+?))?\<close>\<close>

definition ASSIGNEE_RX :: rx where
  "ASSIGNEE_RX = seqs [StarG is_space, Lit BUST, StarG is_space, Grp 6 (PlusL is_dot)]"

text \<open>\<^verbatim>\<open><!--\s*asana:(\w+)\s*-->\<close>, with the capture numbered \<open>i\<close>.\<close>

definition COMMENT_RX :: "nat \<Rightarrow> rx" where
  "COMMENT_RX i = seqs [Lit (js ''<!--''), StarG is_space, Lit (js ''asana:''),
                        Grp i (PlusG is_word), StarG is_space, Lit (js ''-->'')]"

text \<open>
  \<^verbatim>\<open>/^(\s*- \[)([ xX])(\] )(.+?)(?:\s*CALENDAR\s*(\d{4}-\d{2}-\d{2}))?(?:\s*BUST\s*(.+?))?(?:\s*<!--\s*asana:(\w+)\s*-->)?\s*$/\<close>
  without the leading \<^verbatim>\<open>^\<close>, which \<open>rx_exec_anchored\<close> stands for.
\<close>

definition TAIL_RX :: rx where
  "TAIL_RX = seqs [OptG DUE_RX, OptG ASSIGNEE_RX,
                   OptG (Seq (StarG is_space) (COMMENT_RX 7)), StarG is_space, Eol]"

definition TASK_LINE_REGEX :: rx where
  "TASK_LINE_REGEX =
     seqs [Grp 1 (Seq (StarG is_space) (Lit (js ''- [''))), Grp 2 (Cls is_mark),
           Grp 3 (Lit (js ''] '')), Grp 4 (PlusL is_dot), TAIL_RX]"

definition ASANA_GID_REGEX :: rx where
  "ASANA_GID_REGEX = COMMENT_RX 1"

text \<open>\<^verbatim>\<open>x || null\<close> on a string that may be undefined: the empty string is falsy.\<close>

definition or_null :: "jsstring option \<Rightarrow> jsstring option" where
  "or_null x = (case x of None \<Rightarrow> None | Some s \<Rightarrow> if s = [] then None else Some s)"

text \<open>
  \<^verbatim>\<open>parseTaskLine\<close>.  Groups 2 and 4 take part in every match, so the \<open>None\<close> branch of
  their lookups is never taken.
\<close>

definition parseTaskLine :: "jsstring \<Rightarrow> nat \<Rightarrow> ParsedTask option" where
  "parseTaskLine ln lineNumber =
     (case rx_exec_anchored TASK_LINE_REGEX ln of
        None \<Rightarrow> None
      | Some m \<Rightarrow>
          Some \<lparr> p_line = ln,
                 p_lineNumber = lineNumber,
                 p_completed = (m 2 = Some (js ''x'') \<or> m 2 = Some (js ''X'')),
                 p_name = trim (case m 4 of None \<Rightarrow> [] | Some s \<Rightarrow> s),
                 p_asanaGid = or_null (m 7),
                 p_dueDate = or_null (m 5),
                 p_assignee = or_null (map_option trim (m 6)) \<rparr>)"

definition formatTaskLine :: "AsanaTask \<Rightarrow> bool \<Rightarrow> bool \<Rightarrow> jsstring" where
  "formatTaskLine task showDueDates showAssignees =
     (let checkbox = (if t_completed task then js ''- [x]'' else js ''- [ ]'');
          line0 = checkbox @ js '' '' @ t_name task;
          line1 = (case or_null (t_due_on task) of
                     Some d \<Rightarrow> if showDueDates then line0 @ js '' '' @ CALENDAR @ js '' '' @ d
                               else line0
                   | None \<Rightarrow> line0);
          line2 = (case or_null (map_option r_name (t_assignee task)) of
                     Some a \<Rightarrow> if showAssignees then line1 @ js '' '' @ BUST @ js '' '' @ a
                               else line1
                   | None \<Rightarrow> line1)
      in line2 @ js '' <!-- asana:'' @ t_gid task @ js '' -->'')"

text \<open>
  The identifier the rewrite walk reads off a line: the first capture of the leftmost
  match of \<^verbatim>\<open>ASANA_GID_REGEX\<close>.
\<close>

definition gid_of_line :: "jsstring \<Rightarrow> jsstring option" where
  "gid_of_line ln = (case rx_exec ASANA_GID_REGEX ln of None \<Rightarrow> None | Some m \<Rightarrow> m 1)"


section \<open>The document model (\<^verbatim>\<open>parseNoteContent\<close>)\<close>

definition UNSECTIONED :: jsstring where
  "UNSECTIONED = js ''(Unsectioned)''"

definition FENCE :: jsstring where
  "FENCE = js ''---''"

definition H2 :: jsstring where
  "H2 = js ''## ''"

text \<open>\<^verbatim>\<open>line.replace(/^## /, "")\<close>\<close>

definition strip_h2 :: "jsstring \<Rightarrow> jsstring" where
  "strip_h2 ln = (if startsWith ln H2 then drop 3 ln else ln)"

text \<open>
  A \<^verbatim>\<open>Map\<close> iterates in insertion order and \<^verbatim>\<open>set\<close> on a present key keeps the key's
  place: an association list under \<open>AList.update\<close>.  \<open>map_push\<close> is the pair
  \<^verbatim>\<open>if (!m.has(k)) m.set(k, []); m.get(k).push(v)\<close>.
\<close>

definition map_touch :: "'k \<Rightarrow> ('k \<times> 'v list) list \<Rightarrow> ('k \<times> 'v list) list" where
  "map_touch k m = (if map_of m k = None then m @ [(k, [])] else m)"

definition map_push :: "'k \<Rightarrow> 'v \<Rightarrow> ('k \<times> 'v list) list \<Rightarrow> ('k \<times> 'v list) list" where
  "map_push k v m =
     (let m' = map_touch k m
      in AList.update k ((case map_of m' k of None \<Rightarrow> [] | Some vs \<Rightarrow> vs) @ [v]) m')"

record doc =
  n_frontmatter :: jsstring
  n_header :: jsstring
  n_tasks :: "ParsedTask list"
  n_sections :: "(jsstring \<times> ParsedTask list) list"
  n_currentSection :: jsstring
  n_inFrontmatter :: bool
  n_frontmatterDone :: bool
  n_headerDone :: bool

definition parseLine :: "nat \<Rightarrow> jsstring \<Rightarrow> doc \<Rightarrow> doc" where
  "parseLine i ln st =
     (if i = 0 \<and> ln = FENCE then
        st\<lparr> n_inFrontmatter := True, n_frontmatter := n_frontmatter st @ ln @ [0x0A] \<rparr>
      else if n_inFrontmatter st then
        (if ln = FENCE then
           st\<lparr> n_frontmatter := n_frontmatter st @ ln @ [0x0A],
               n_inFrontmatter := False, n_frontmatterDone := True \<rparr>
         else st\<lparr> n_frontmatter := n_frontmatter st @ ln @ [0x0A] \<rparr>)
      else if n_frontmatterDone st \<and> \<not> n_headerDone st \<and> startsWith ln (js ''# '') then
        st\<lparr> n_header := ln, n_headerDone := True \<rparr>
      else if n_frontmatterDone st \<and> \<not> n_headerDone st \<and> trim ln = [] then st
      else if startsWith ln H2 then
        st\<lparr> n_currentSection := trim (strip_h2 ln),
            n_sections := map_touch (trim (strip_h2 ln)) (n_sections st) \<rparr>
      else
        (case parseTaskLine ln i of
           None \<Rightarrow> st
         | Some parsed \<Rightarrow>
             st\<lparr> n_tasks := n_tasks st @ [parsed],
                 n_sections := map_push (n_currentSection st) parsed (n_sections st) \<rparr>))"

fun parseLines :: "nat \<Rightarrow> jsstring list \<Rightarrow> doc \<Rightarrow> doc" where
  "parseLines i [] st = st"
| "parseLines i (ln # lns) st = parseLines (Suc i) lns (parseLine i ln st)"

definition doc0 :: doc where
  "doc0 = \<lparr> n_frontmatter = [], n_header = [], n_tasks = [], n_sections = [],
             n_currentSection = UNSECTIONED, n_inFrontmatter = False,
             n_frontmatterDone = False, n_headerDone = False \<rparr>"

text \<open>\<^verbatim>\<open>parseNoteContent\<close>; \<^verbatim>\<open>rawLines\<close> is \<open>split_nl content\<close>.\<close>

definition parseNoteContent :: "jsstring \<Rightarrow> doc" where
  "parseNoteContent content = parseLines 0 (split_nl content) doc0"

section \<open>Bootstrap (\<^verbatim>\<open>generateNoteContent\<close>)\<close>

text \<open>
  The section a task is filed under: the name of the section of its first membership in
  this project, \<^verbatim>\<open>(Unsectioned)\<close> when there is none or the name is empty.  The source
  has this computation twice, in \<^verbatim>\<open>generateNoteContent\<close> and in step 3 of
  \<^verbatim>\<open>syncProject\<close>, with the same text.
\<close>

definition sectionNameOf :: "jsstring \<Rightarrow> AsanaTask \<Rightarrow> jsstring" where
  "sectionNameOf projectGid task =
     (case List.find (\<lambda>m. r_gid (m_project m) = projectGid) (t_memberships task) of
        None \<Rightarrow> UNSECTIONED
      | Some m \<Rightarrow> if r_name (m_section m) \<noteq> [] then r_name (m_section m) else UNSECTIONED)"

definition groupBySection :: "jsstring \<Rightarrow> AsanaTask list \<Rightarrow> (jsstring \<times> AsanaTask list) list" where
  "groupBySection projectGid tasks =
     foldl (\<lambda>m t. map_push (sectionNameOf projectGid t) t m) [] tasks"

definition DQ :: jsstring where
  "DQ = [0x22]"

text \<open>The frontmatter line that carries the time of the pass, \<^verbatim>\<open>new Date().toISOString()\<close>.\<close>

definition stamp :: "jsstring \<Rightarrow> jsstring" where
  "stamp now = js ''asana_last_sync: '' @ DQ @ now @ DQ"

definition sectionBlock :: "bool \<Rightarrow> bool \<Rightarrow> jsstring \<times> AsanaTask list \<Rightarrow> jsstring list" where
  "sectionBlock showDueDates showAssignees g =
     (if fst g \<noteq> UNSECTIONED then [H2 @ fst g, []] else []) @
     map (\<lambda>t. formatTaskLine t showDueDates showAssignees) (snd g) @ [[]]"

definition generateNoteContent ::
  "jsstring \<Rightarrow> jsstring \<Rightarrow> bool \<Rightarrow> AsanaTask list \<Rightarrow> bool \<Rightarrow> bool \<Rightarrow> bool \<Rightarrow> jsstring \<Rightarrow> jsstring"
where
  "generateNoteContent projectName projectGid isMyTasks asanaTasks
       showDueDates showAssignees showCompleted now =
     (let head_lines =
            [FENCE,
             js ''asana_project_gid: '' @ DQ @ projectGid @ DQ,
             js ''asana_is_my_tasks: '' @ (if isMyTasks then js ''true'' else js ''false''),
             stamp now,
             FENCE,
             [],
             js ''# '' @ projectName,
             []];
          filteredTasks =
            (if showCompleted then asanaTasks else filter (\<lambda>t. \<not> t_completed t) asanaTasks);
          sectionMap = groupBySection projectGid filteredTasks
      in join_nl (head_lines @ concat (map (sectionBlock showDueDates showAssignees) sectionMap)))"


section \<open>The collaborators: vault, remote task list, clock\<close>

text \<open>
  \<^verbatim>\<open>AsanaSyncSettings\<close> and \<^verbatim>\<open>SyncedProject\<close> of \<^verbatim>\<open>types.ts\<close>.
\<close>

record SyncedProject =
  projectGid :: jsstring
  projectName :: jsstring
  notePath :: jsstring
  isMyTasks :: bool
  userTaskListGid :: "jsstring option"

record AsanaSyncSettings =
  asanaAccessToken :: jsstring
  workspaceGid :: jsstring
  workspaceName :: jsstring
  syncedProjects :: "SyncedProject list"
  syncIntervalMinutes :: nat
  syncFolder :: jsstring
  showDueDates :: bool
  showAssignees :: bool
  showCompletedTasks :: bool
  syncMyTasks :: bool
  userGid :: jsstring

datatype error = ApiError | VaultError

datatype entry = TFile jsstring | TFolder

text \<open>
  The environment of a pass.  The vault maps a path to a file with its text or to a folder.
  The remote side holds, for every project and every user task list, the tasks that the
  paginated fetch of \<^verbatim>\<open>asanaApi.ts\<close> returns for it; a request fails (the client
  throws) when the service is not \<open>online\<close>, and a completion update also when the task
  is in \<open>rejects\<close>.  \<open>requests\<close> logs every completion update sent, \<open>modified\<close> every
  \<^verbatim>\<open>vault.modify\<close>, \<open>notices\<close> every \<^verbatim>\<open>Notice\<close>; \<open>clock\<close> is what
  \<^verbatim>\<open>new Date().toISOString()\<close> returns.
\<close>

record world =
  entries :: "jsstring \<Rightarrow> entry option"
  project_tasks :: "jsstring \<Rightarrow> AsanaTask list"
  user_tasks :: "jsstring \<Rightarrow> AsanaTask list"
  online :: bool
  rejects :: "jsstring set"
  clock :: jsstring
  requests :: "(jsstring \<times> bool) list"
  modified :: "jsstring list"
  notices :: "jsstring list"

definition fetchProjectTasks :: "jsstring \<Rightarrow> world \<Rightarrow> error + AsanaTask list" where
  "fetchProjectTasks gid w = (if online w then Inr (project_tasks w gid) else Inl ApiError)"

definition fetchUserTasks :: "jsstring \<Rightarrow> world \<Rightarrow> error + AsanaTask list" where
  "fetchUserTasks gid w = (if online w then Inr (user_tasks w gid) else Inl ApiError)"

definition set_completed :: "jsstring \<Rightarrow> bool \<Rightarrow> AsanaTask \<Rightarrow> AsanaTask" where
  "set_completed gid c t = (if t_gid t = gid then t\<lparr> t_completed := c \<rparr> else t)"

text \<open>
  \<^verbatim>\<open>updateTaskCompletion\<close>: the PUT is logged; when the service accepts it, the task has
  the new flag in every list that holds it.  The first component is the error thrown.
\<close>

definition updateTaskCompletion :: "jsstring \<Rightarrow> bool \<Rightarrow> world \<Rightarrow> error option \<times> world" where
  "updateTaskCompletion gid c w =
     (let w1 = w\<lparr> requests := requests w @ [(gid, c)] \<rparr>
      in if online w \<and> gid \<notin> rejects w then
           (None, w1\<lparr> project_tasks := (\<lambda>k. map (set_completed gid c) (project_tasks w k)),
                      user_tasks := (\<lambda>k. map (set_completed gid c) (user_tasks w k)) \<rparr>)
         else (Some ApiError, w1))"

text \<open>\<^verbatim>\<open>notePath.substring(0, notePath.lastIndexOf("/"))\<close>: empty when there is no slash.\<close>

definition folderPath :: "jsstring \<Rightarrow> jsstring" where
  "folderPath p = (let r = dropWhile (\<lambda>c. c \<noteq> 0x2F) (rev p) in if r = [] then [] else rev (tl r))"

section \<open>Reconciliation (\<^verbatim>\<open>syncProject\<close>)\<close>

record stats =
  added :: nat
  updated :: nat
  completionChanges :: nat

text \<open>The fetch at the head of a pass and again before the rewrite.\<close>

definition fetchTasks :: "SyncedProject \<Rightarrow> world \<Rightarrow> error + AsanaTask list" where
  "fetchTasks sp w =
     (case or_null (userTaskListGid sp) of
        Some l \<Rightarrow> if isMyTasks sp then fetchUserTasks l w else fetchProjectTasks (projectGid sp) w
      | None \<Rightarrow> fetchProjectTasks (projectGid sp) w)"

text \<open>\<^verbatim>\<open>asanaTaskMap\<close> is only ever read with \<^verbatim>\<open>get\<close>: a later task with the same gid wins.\<close>

definition taskMap :: "AsanaTask list \<Rightarrow> jsstring \<Rightarrow> AsanaTask option" where
  "taskMap tasks = foldl (\<lambda>m t. m(t_gid t \<mapsto> t)) Map.empty tasks"

text \<open>\<^verbatim>\<open>existingTaskMap\<close>, iterated in insertion order by step 1.\<close>

definition existingTaskMap :: "ParsedTask list \<Rightarrow> (jsstring \<times> ParsedTask) list" where
  "existingTaskMap tasks =
     foldl (\<lambda>m t. case or_null (p_asanaGid t) of None \<Rightarrow> m | Some g \<Rightarrow> AList.update g t m) [] tasks"

text \<open>
  Step 1: push completion changes.  The map consulted is the one of the first fetch; a
  failed update is caught, logged to the console and not counted.
\<close>

fun pushCompletions ::
  "(jsstring \<Rightarrow> AsanaTask option) \<Rightarrow> (jsstring \<times> ParsedTask) list \<Rightarrow> nat \<times> world \<Rightarrow> nat \<times> world"
where
  "pushCompletions m [] (n, w) = (n, w)"
| "pushCompletions m ((gid, obsidianTask) # rest) (n, w) =
     (case m gid of
        None \<Rightarrow> pushCompletions m rest (n, w)
      | Some asanaTask \<Rightarrow>
          if p_completed obsidianTask \<noteq> t_completed asanaTask then
            (case updateTaskCompletion gid (p_completed obsidianTask) w of
               (None, w') \<Rightarrow> pushCompletions m rest (Suc n, w')
             | (Some e, w') \<Rightarrow> pushCompletions m rest (n, w'))
          else pushCompletions m rest (n, w))"

text \<open>Step 2: the walk over the raw lines.\<close>

record rewrite =
  newLines :: "jsstring list"
  inFrontmatter :: bool
  updatedFrontmatter :: bool
  currentSection :: jsstring
  seenGids :: "jsstring set"
  nUpdated :: nat

definition rewriteLine ::
  "AsanaSyncSettings \<Rightarrow> (jsstring \<Rightarrow> AsanaTask option) \<Rightarrow> jsstring \<Rightarrow> nat \<Rightarrow> jsstring \<Rightarrow>
   rewrite \<Rightarrow> rewrite"
where
  "rewriteLine settings asanaTaskMap now i ln st =
     (if i = 0 \<and> ln = FENCE then
        st\<lparr> inFrontmatter := True, newLines := newLines st @ [ln] \<rparr>
      else if inFrontmatter st then
        (if ln = FENCE then
           (if \<not> updatedFrontmatter st then
              st\<lparr> inFrontmatter := False, newLines := newLines st @ [stamp now, ln],
                  updatedFrontmatter := True \<rparr>
            else st\<lparr> inFrontmatter := False, newLines := newLines st @ [ln] \<rparr>)
         else if startsWith ln (js ''asana_last_sync:'') then
           st\<lparr> newLines := newLines st @ [stamp now], updatedFrontmatter := True \<rparr>
         else st\<lparr> newLines := newLines st @ [ln] \<rparr>)
      else if startsWith ln H2 then
        st\<lparr> currentSection := trim (strip_h2 ln), newLines := newLines st @ [ln] \<rparr>
      else
        (case gid_of_line ln of
           Some gid \<Rightarrow>
             (case asanaTaskMap gid of
                Some asanaTask \<Rightarrow>
                  if \<not> showCompletedTasks settings \<and> t_completed asanaTask then
                    st\<lparr> seenGids := insert gid (seenGids st) \<rparr>
                  else
                    st\<lparr> newLines := newLines st @
                          [formatTaskLine asanaTask (showDueDates settings) (showAssignees settings)],
                        seenGids := insert gid (seenGids st),
                        nUpdated := Suc (nUpdated st) \<rparr>
              | None \<Rightarrow>
                  st\<lparr> newLines := newLines st @ [ln], seenGids := insert gid (seenGids st) \<rparr>)
         | None \<Rightarrow> st\<lparr> newLines := newLines st @ [ln] \<rparr>))"

fun rewriteLines ::
  "AsanaSyncSettings \<Rightarrow> (jsstring \<Rightarrow> AsanaTask option) \<Rightarrow> jsstring \<Rightarrow> nat \<Rightarrow> jsstring list \<Rightarrow>
   rewrite \<Rightarrow> rewrite"
where
  "rewriteLines settings m now i [] st = st"
| "rewriteLines settings m now i (ln # lns) st =
     rewriteLines settings m now (Suc i) lns (rewriteLine settings m now i ln st)"

definition rewrite0 :: rewrite where
  "rewrite0 = \<lparr> newLines = [], inFrontmatter = False, updatedFrontmatter = False,
                currentSection = UNSECTIONED, seenGids = {}, nUpdated = 0 \<rparr>"

text \<open>Step 3: the tasks of the fresh fetch that the walk did not meet.\<close>

definition newTasksOf :: "AsanaSyncSettings \<Rightarrow> jsstring set \<Rightarrow> AsanaTask list \<Rightarrow> AsanaTask list" where
  "newTasksOf settings seen asanaTasks =
     filter (\<lambda>t. t_gid t \<notin> seen \<and> \<not> (\<not> showCompletedTasks settings \<and> t_completed t)) asanaTasks"

text \<open>\<^verbatim>\<open>newLines.findIndex(pred)\<close>, \<open>None\<close> for \<^verbatim>\<open>-1\<close>.\<close>

fun findIndex :: "('a \<Rightarrow> bool) \<Rightarrow> 'a list \<Rightarrow> nat option" where
  "findIndex p [] = None"
| "findIndex p (x # xs) = (if p x then Some 0 else map_option Suc (findIndex p xs))"

text \<open>The \<^verbatim>\<open>while\<close> loop that walks \<^verbatim>\<open>insertIdx\<close> to the next heading or to the end.\<close>

function findSectionEnd :: "jsstring list \<Rightarrow> nat \<Rightarrow> nat" where
  "findSectionEnd lns insertIdx =
     (if insertIdx < length lns \<and> \<not> startsWith (lns ! insertIdx) H2
      then findSectionEnd lns (Suc insertIdx) else insertIdx)"
  by pat_completeness auto
termination
  by (relation "measure (\<lambda>(lns, insertIdx). length lns - insertIdx)") auto

declare findSectionEnd.simps [simp del]

definition insertSection ::
  "AsanaSyncSettings \<Rightarrow> jsstring list \<Rightarrow> jsstring \<times> AsanaTask list \<Rightarrow> jsstring list"
where
  "insertSection settings lns g =
     (let sectionName = fst g;
          sectionHeader = H2 @ sectionName;
          sectionIndex = findIndex (\<lambda>l. trim l = sectionHeader) lns;
          taskLines = map (\<lambda>t. formatTaskLine t (showDueDates settings) (showAssignees settings))
                          (snd g)
      in case sectionIndex of
           Some idx \<Rightarrow>
             if sectionName \<noteq> UNSECTIONED then
               (let insertIdx = findSectionEnd lns (Suc idx)
                in take insertIdx lns @ taskLines @ drop insertIdx lns)
             else lns @ taskLines
         | None \<Rightarrow>
             if sectionName \<noteq> UNSECTIONED then lns @ [[], sectionHeader, []] @ taskLines
             else lns @ taskLines)"

definition appendNewTasks ::
  "AsanaSyncSettings \<Rightarrow> SyncedProject \<Rightarrow> AsanaTask list \<Rightarrow> jsstring list \<Rightarrow> jsstring list"
where
  "appendNewTasks settings sp newTasks lns =
     (if length newTasks > 0
      then foldl (insertSection settings) lns (groupBySection (projectGid sp) newTasks)
      else lns)"

text \<open>
  The bidirectional part of \<^verbatim>\<open>syncProject\<close>, for a note that exists with text
  \<open>existingContent\<close>.
\<close>

definition syncExisting ::
  "AsanaSyncSettings \<Rightarrow> SyncedProject \<Rightarrow> AsanaTask list \<Rightarrow> jsstring \<Rightarrow> world \<Rightarrow>
   (error + stats) \<times> world"
where
  "syncExisting settings sp asanaTasks existingContent w =
     (let parsed = parseNoteContent existingContent;
          (changes, w1) =
             pushCompletions (taskMap asanaTasks) (existingTaskMap (n_tasks parsed)) (0, w)
      in case fetchTasks sp w1 of
           Inl e \<Rightarrow> (Inl e, w1)
         | Inr fresh \<Rightarrow>
             (let st = rewriteLines settings (taskMap fresh) (clock w1) 0
                         (split_nl existingContent) rewrite0;
                  newTasks = newTasksOf settings (seenGids st) fresh;
                  lns = appendNewTasks settings sp newTasks (newLines st);
                  newContent = join_nl lns;
                  w2 = (if newContent \<noteq> existingContent
                        then w1\<lparr> entries := (entries w1)(notePath sp \<mapsto> TFile newContent),
                                 modified := modified w1 @ [notePath sp] \<rparr>
                        else w1)
              in (Inr \<lparr> added = length newTasks, updated = nUpdated st,
                        completionChanges = changes \<rparr>, w2)))"

text \<open>
  The bootstrap part: the note is created from scratch, after its folder when that is
  missing.  \<^verbatim>\<open>vault.create\<close> throws when the path is taken (here: by a folder).
\<close>

definition createNote ::
  "AsanaSyncSettings \<Rightarrow> SyncedProject \<Rightarrow> AsanaTask list \<Rightarrow> world \<Rightarrow> (error + stats) \<times> world"
where
  "createNote settings sp asanaTasks w =
     (let content = generateNoteContent (projectName sp) (projectGid sp) (isMyTasks sp) asanaTasks
                      (showDueDates settings) (showAssignees settings)
                      (showCompletedTasks settings) (clock w);
          fp = folderPath (notePath sp);
          w1 = (if fp \<noteq> [] \<and> entries w fp = None
                then w\<lparr> entries := (entries w)(fp \<mapsto> TFolder) \<rparr> else w)
      in if entries w1 (notePath sp) \<noteq> None then (Inl VaultError, w1)
         else (Inr \<lparr> added = length asanaTasks, updated = 0, completionChanges = 0 \<rparr>,
               w1\<lparr> entries := (entries w1)(notePath sp \<mapsto> TFile content) \<rparr>))"

definition syncProject ::
  "AsanaSyncSettings \<Rightarrow> SyncedProject \<Rightarrow> world \<Rightarrow> (error + stats) \<times> world"
where
  "syncProject settings sp w =
     (case fetchTasks sp w of
        Inl e \<Rightarrow> (Inl e, w)
      | Inr asanaTasks \<Rightarrow>
          (case entries w (notePath sp) of
             Some (TFile existingContent) \<Rightarrow> syncExisting settings sp asanaTasks existingContent w
           | _ \<Rightarrow> createNote settings sp asanaTasks w))"


section \<open>The change detector (\<^verbatim>\<open>processCheckboxChanges\<close> in \<^verbatim>\<open>main.ts\<close>)\<close>






section \<open>Vocabulary of the statements\<close>

text \<open>The completion updates sent on the way from world \<open>w\<close> to world \<open>w'\<close>.\<close>

definition issued :: "world \<Rightarrow> world \<Rightarrow> (jsstring \<times> bool) list" where
  "issued w w' = drop (length (requests w)) (requests w')"

section \<open>Concrete settings, sources, tasks and worlds\<close>

definition cfg :: "bool \<Rightarrow> AsanaSyncSettings" where
  "cfg showCompleted =
     \<lparr> asanaAccessToken = js ''tok'', workspaceGid = [], workspaceName = [],
       syncedProjects = [], syncIntervalMinutes = 5, syncFolder = js ''Asana'',
       showDueDates = True, showAssignees = True, showCompletedTasks = showCompleted,
       syncMyTasks = False, userGid = [] \<rparr>"

definition SP :: SyncedProject where
  "SP = \<lparr> projectGid = js ''P'', projectName = js ''Proj'', notePath = js ''n.md'',
          isMyTasks = False, userTaskListGid = None \<rparr>"

definition task1 :: "bool \<Rightarrow> AsanaTask" where
  "task1 c = \<lparr> t_gid = js ''1'', t_name = js ''T'', t_completed = c, t_due_on = None,
               t_assignee = None, t_permalink_url = [], t_notes = [], t_memberships = [] \<rparr>"

text \<open>A world whose service is up, with the same tasks on every project list.\<close>

definition remote_world :: "(jsstring \<Rightarrow> entry option) \<Rightarrow> AsanaTask list \<Rightarrow> jsstring \<Rightarrow> world" where
  "remote_world es ts now =
     \<lparr> entries = es, project_tasks = (\<lambda>_. ts), user_tasks = (\<lambda>_. []), online = True,
       rejects = {}, clock = now, requests = [], modified = [], notices = [] \<rparr>"

section \<open>Vocabulary of the rewrite walk\<close>

text \<open>The walk of step 2 over the lines of a note, from its initial state.\<close>

definition walk ::
  "AsanaSyncSettings \<Rightarrow> (jsstring \<Rightarrow> AsanaTask option) \<Rightarrow> jsstring \<Rightarrow> jsstring list \<Rightarrow> rewrite"
where
  "walk settings m now lns = rewriteLines settings m now 0 lns rewrite0"

text \<open>
  What the walk writes for line number \<open>i\<close> of the note: the lines it appends to
  \<^verbatim>\<open>newLines\<close> in the iteration for that line.
\<close>

definition written_for ::
  "AsanaSyncSettings \<Rightarrow> (jsstring \<Rightarrow> AsanaTask option) \<Rightarrow> jsstring \<Rightarrow> jsstring list \<Rightarrow> nat \<Rightarrow>
   jsstring list"
where
  "written_for settings m now lns i =
     drop (length (newLines (walk settings m now (take i lns))))
          (newLines (walk settings m now (take (Suc i) lns)))"

text \<open>
  The lines \<open>pre\<close> that precede a line leave the frontmatter block open: the note starts
  with the fence and the closing fence has not come yet.
\<close>

definition frontmatter_open :: "jsstring list \<Rightarrow> bool" where
  "frontmatter_open pre \<longleftrightarrow> pre \<noteq> [] \<and> hd pre = FENCE \<and> FENCE \<notin> set (tl pre)"

section \<open>Vocabulary of step 1\<close>

text \<open>
  An entry of \<^verbatim>\<open>existingTaskMap\<close> is in conflict when the remote map holds its identifier
  with the other completion flag; \<open>pushes\<close> are the updates that step 1 sends, in order;
  the service accepts an update when it is up and does not reject the task.
\<close>

definition conflict :: "(jsstring \<Rightarrow> AsanaTask option) \<Rightarrow> jsstring \<times> ParsedTask \<Rightarrow> bool" where
  "conflict m e =
     (case m (fst e) of None \<Rightarrow> False | Some a \<Rightarrow> p_completed (snd e) \<noteq> t_completed a)"

definition pushes ::
  "(jsstring \<Rightarrow> AsanaTask option) \<Rightarrow> (jsstring \<times> ParsedTask) list \<Rightarrow> (jsstring \<times> bool) list"
where
  "pushes m em = map (\<lambda>e. (fst e, p_completed (snd e))) (filter (conflict m) em)"

definition accepted :: "world \<Rightarrow> jsstring \<times> bool \<Rightarrow> bool" where
  "accepted w u \<longleftrightarrow> online w \<and> fst u \<notin> rejects w"

definition apply_updates :: "(jsstring \<times> bool) list \<Rightarrow> AsanaTask \<Rightarrow> AsanaTask" where
  "apply_updates us t = foldl (\<lambda>t u. set_completed (fst u) (snd u) t) t us"

section \<open>Vocabulary of a pass over an existing note\<close>

text \<open>
  For a note with text \<open>content\<close> and a first fetch \<open>ts\<close>: the identifier map of the
  note's tasks, the updates step 1 sends, the second fetch (the first one with the accepted
  updates applied), the state in which the walk ends and the lines of the note after
  step 3.
\<close>

definition local_map :: "jsstring \<Rightarrow> (jsstring \<times> ParsedTask) list" where
  "local_map content = existingTaskMap (n_tasks (parseNoteContent content))"

definition sent :: "AsanaTask list \<Rightarrow> jsstring \<Rightarrow> (jsstring \<times> bool) list" where
  "sent ts content = pushes (taskMap ts) (local_map content)"

definition refreshed :: "world \<Rightarrow> AsanaTask list \<Rightarrow> jsstring \<Rightarrow> AsanaTask list" where
  "refreshed w ts content = map (apply_updates (filter (accepted w) (sent ts content))) ts"

definition walked :: "AsanaSyncSettings \<Rightarrow> world \<Rightarrow> AsanaTask list \<Rightarrow> jsstring \<Rightarrow> rewrite" where
  "walked settings w ts content =
     walk settings (taskMap (refreshed w ts content)) (clock w) (split_nl content)"

definition final_lines ::
  "AsanaSyncSettings \<Rightarrow> SyncedProject \<Rightarrow> world \<Rightarrow> AsanaTask list \<Rightarrow> jsstring \<Rightarrow> jsstring list"
where
  "final_lines settings sp w ts content =
     appendNewTasks settings sp
       (newTasksOf settings (seenGids (walked settings w ts content)) (refreshed w ts content))
       (newLines (walked settings w ts content))"

section \<open>Concrete lines and notes\<close>

definition LINE1 :: jsstring where
  "LINE1 = js ''- [ ] T <!-- asana:1 -->''"

definition LINE1X :: jsstring where
  "LINE1X = js ''- [x] T <!-- asana:1 -->''"

text \<open>A task line on which the user wrote after the identifier comment.\<close>

definition LINE1_NOTE :: jsstring where
  "LINE1_NOTE = js ''- [ ] T <!-- asana:1 --> (urgent)''"

text \<open>A line whose identifier no remote task has.\<close>

definition LINE9 :: jsstring where
  "LINE9 = js ''- [ ] Old <!-- asana:9 -->''"

text \<open>A vault that holds one note, at the path of \<open>SP\<close>.\<close>

definition vault1 :: "jsstring \<Rightarrow> jsstring \<Rightarrow> entry option" where
  "vault1 content = Map.empty(notePath SP \<mapsto> TFile content)"

text \<open>A task line that the user wrote by hand: no identifier.\<close>

definition LINE_MINE :: jsstring where
  "LINE_MINE = js ''- [ ] Mine''"





section \<open>Vocabulary of the codec statements\<close>

text \<open>
  \<open>leads r st x\<close>: the first way in which \<open>r\<close> matches from state \<open>st\<close> ends in \<open>x\<close>.
\<close>

definition leads :: "rx \<Rightarrow> mstate \<Rightarrow> mstate \<Rightarrow> bool" where
  "leads r st x = (case run r st of [] \<Rightarrow> False | y # _ \<Rightarrow> y = x)"

text \<open>A calendar date as the remote side sends it: \<^verbatim>\<open>YYYY-MM-DD\<close>.\<close>

fun is_date :: "jsstring \<Rightarrow> bool" where
  "is_date [y1, y2, y3, y4, h1, m1, m2, h2, d1, d2] =
     (is_digit y1 \<and> is_digit y2 \<and> is_digit y3 \<and> is_digit y4 \<and> h1 = 0x2D \<and>
      is_digit m1 \<and> is_digit m2 \<and> h2 = 0x2D \<and> is_digit d1 \<and> is_digit d2)"
| "is_date _ = False"

text \<open>A text that \<^verbatim>\<open>trim\<close> leaves alone and that is not empty.\<close>

definition trimmed :: "jsstring \<Rightarrow> bool" where
  "trimmed s \<longleftrightarrow> s \<noteq> [] \<and> \<not> is_space (hd s) \<and> \<not> is_space (last s)"

text \<open>
  A title that the line grammar can tell from what follows it: one line, trimmed, and
  without the calendar sign, the bust sign and the opening of a comment.  An assignee
  name likewise, where only the opening of a comment can follow.  An identifier of word
  characters.
\<close>

definition plain_title :: "jsstring \<Rightarrow> bool" where
  "plain_title s \<longleftrightarrow>
     trimmed s \<and> list_all is_dot s \<and> \<not> sublist CALENDAR s \<and> \<not> sublist BUST s \<and>
     \<not> sublist (js ''<!--'') s"

definition plain_assignee :: "jsstring \<Rightarrow> bool" where
  "plain_assignee s \<longleftrightarrow> trimmed s \<and> list_all is_dot s \<and> \<not> sublist (js ''<!--'') s"

definition word_gid :: "jsstring \<Rightarrow> bool" where
  "word_gid g \<longleftrightarrow> g \<noteq> [] \<and> list_all is_word g"

definition codec_safe :: "AsanaTask \<Rightarrow> bool" where
  "codec_safe t \<longleftrightarrow>
     plain_title (t_name t) \<and>
     (case t_due_on t of None \<Rightarrow> True | Some d \<Rightarrow> is_date d) \<and>
     (case t_assignee t of None \<Rightarrow> True | Some a \<Rightarrow> plain_assignee (r_name a)) \<and>
     word_gid (t_gid t)"

text \<open>The pieces that \<open>formatTaskLine\<close> appends to the title.\<close>

definition due_part :: "jsstring option \<Rightarrow> jsstring" where
  "due_part x = (case x of None \<Rightarrow> [] | Some d \<Rightarrow> js '' '' @ CALENDAR @ js '' '' @ d)"

definition assignee_part :: "jsstring option \<Rightarrow> jsstring" where
  "assignee_part x = (case x of None \<Rightarrow> [] | Some a \<Rightarrow> js '' '' @ BUST @ js '' '' @ a)"

definition id_part :: "jsstring \<Rightarrow> jsstring" where
  "id_part g = js '' <!-- asana:'' @ g @ js '' -->''"

text \<open>The captures that the optional groups add.\<close>

definition with_cap :: "nat \<Rightarrow> jsstring option \<Rightarrow> caps \<Rightarrow> caps" where
  "with_cap i x c = (case x of None \<Rightarrow> c | Some s \<Rightarrow> c(i \<mapsto> s))"

section \<open>Concrete tasks and lines for the codec\<close>

definition task_full :: AsanaTask where
  "task_full = \<lparr> t_gid = js ''111'', t_name = js ''Design'', t_completed = True,
                 t_due_on = Some (js ''2025-01-20''),
                 t_assignee = Some \<lparr> r_gid = js ''9'', r_name = js ''Al'' \<rparr>,
                 t_permalink_url = [], t_notes = [], t_memberships = [] \<rparr>"

text \<open>A task whose title holds the calendar sign and a date.\<close>

definition task_marked :: AsanaTask where
  "task_marked = \<lparr> t_gid = js ''1'', t_name = js ''Pay '' @ CALENDAR @ js '' 2024-01-01'',
                   t_completed = False, t_due_on = None, t_assignee = None,
                   t_permalink_url = [], t_notes = [], t_memberships = [] \<rparr>"

text \<open>A checkbox line with the assignee before the due date.\<close>

definition LINE_SWAPPED :: jsstring where
  "LINE_SWAPPED = js ''- [ ] T '' @ BUST @ js '' B '' @ CALENDAR @ js '' 2024-01-15 <!-- asana:1 -->''"

section \<open>Vocabulary of a repeated pass\<close>

text \<open>
  What the walk does with a line below the frontmatter: the lines it writes for it, the
  identifier it records, and whether it counts the line as updated.
\<close>

definition body_out ::
  "AsanaSyncSettings \<Rightarrow> (jsstring \<Rightarrow> AsanaTask option) \<Rightarrow> jsstring \<Rightarrow> jsstring list"
where
  "body_out settings m ln =
     (if startsWith ln H2 then [ln]
      else case gid_of_line ln of
             None \<Rightarrow> [ln]
           | Some g \<Rightarrow>
               (case m g of
                  None \<Rightarrow> [ln]
                | Some t \<Rightarrow>
                    if \<not> showCompletedTasks settings \<and> t_completed t then []
                    else [formatTaskLine t (showDueDates settings) (showAssignees settings)]))"

definition body_gid :: "jsstring \<Rightarrow> jsstring option" where
  "body_gid ln = (if startsWith ln H2 then None else gid_of_line ln)"

definition rewritten ::
  "AsanaSyncSettings \<Rightarrow> (jsstring \<Rightarrow> AsanaTask option) \<Rightarrow> jsstring \<Rightarrow> bool"
where
  "rewritten settings m ln =
     (case body_gid ln of
        None \<Rightarrow> False
      | Some g \<Rightarrow>
          (case m g of
             None \<Rightarrow> False
           | Some t \<Rightarrow> \<not> (\<not> showCompletedTasks settings \<and> t_completed t)))"





text \<open>
  The two readings of a line agree: when the line grammar finds an identifier on it, the
  identifier search finds the same one.
\<close>

definition line_consistent :: "jsstring \<Rightarrow> bool" where
  "line_consistent ln =
     (case parseTaskLine ln 0 of
        None \<Rightarrow> True
      | Some lt \<Rightarrow> (case or_null (p_asanaGid lt) of None \<Rightarrow> True | Some g \<Rightarrow> gid_of_line ln = Some g))"

text \<open>
  A body line is settled with respect to a remote map when the walk writes it back as it
  is and step 1 finds nothing to push for it.
\<close>

definition settled ::
  "AsanaSyncSettings \<Rightarrow> (jsstring \<Rightarrow> AsanaTask option) \<Rightarrow> jsstring \<Rightarrow> bool"
where
  "settled settings m ln \<longleftrightarrow>
     body_out settings m ln = [ln] \<and>
     (case parseTaskLine ln 0 of
        None \<Rightarrow> True
      | Some lt \<Rightarrow>
          (case or_null (p_asanaGid lt) of None \<Rightarrow> True | Some g \<Rightarrow> \<not> conflict m (g, lt)))"

text \<open>
  A remote list whose tasks have distinct identifiers, are of the class that the line
  codec keeps, and are filed under section names of one line.
\<close>

definition safe_list :: "jsstring \<Rightarrow> AsanaTask list \<Rightarrow> bool" where
  "safe_list pg ts \<longleftrightarrow>
     distinct (map t_gid ts) \<and>
     list_all (\<lambda>t. codec_safe t \<and> 0x0A \<notin> set (sectionNameOf pg t)) ts"

text \<open>A task that the hide rule does not suppress.\<close>

definition shown :: "AsanaSyncSettings \<Rightarrow> AsanaTask \<Rightarrow> bool" where
  "shown settings t \<longleftrightarrow> \<not> (\<not> showCompletedTasks settings \<and> t_completed t)"


section \<open>Concrete lines for the deletion and placement statements\<close>

text \<open>A task line with two identifier comments.\<close>

definition LINE19 :: jsstring where
  "LINE19 = js ''- [ ] A <!-- asana:1 --> <!-- asana:9 -->''"




section \<open>Lines and text\<close>

lemmas rx_defs = rx_exec_anchored_def TASK_LINE_REGEX_def TAIL_RX_def
     DUE_RX_def ASSIGNEE_RX_def COMMENT_RX_def DATE_RX_def js_def CALENDAR_def BUST_def or_null_def
     is_space_def is_dot_def is_line_terminator_def is_digit_def is_word_def is_mark_def trim_def

lemma gid_of_line_FENCE: "gid_of_line FENCE = None"
  by (simp add: gid_of_line_def ASANA_GID_REGEX_def FENCE_def rx_defs)

lemma split_nl_nonempty: "split_nl s \<noteq> []"
  by (induction s) auto

lemma split_nl_no_nl: "0x0A \<notin> set s \<Longrightarrow> split_nl s = [s]"
  by (induction s) auto




lemma split_nl_lines_no_nl: "l \<in> set (split_nl s) \<Longrightarrow> 0x0A \<notin> set l"
proof (induction s arbitrary: l)
  case Nil
  then show ?case by simp
next
  case (Cons c s)
  obtain h t where sp: "split_nl s = h # t"
    using split_nl_nonempty [of s] by (cases "split_nl s") auto
  show ?case
  proof (cases "c = 0x0A")
    case True
    then show ?thesis using Cons sp by auto
  next
    case False
    then show ?thesis using Cons.prems Cons.IH sp by auto
  qed
qed

section \<open>The rewrite walk\<close>

lemma rewriteLines_append:
  "rewriteLines S m now i (xs @ ys) st =
     rewriteLines S m now (i + length xs) ys (rewriteLines S m now i xs st)"
  by (induction xs arbitrary: i st) auto

lemma walk_snoc:
  "walk S m now (pre @ [x]) = rewriteLine S m now (length pre) x (walk S m now pre)"
  by (simp add: walk_def rewriteLines_append)

lemma walk_Nil: "walk S m now [] = rewrite0"
  by (simp add: walk_def)

lemma walk_single: "walk S m now [x] = rewriteLine S m now 0 x rewrite0"
  by (simp add: walk_def)

lemma inFrontmatter_rewriteLine:
  "inFrontmatter (rewriteLine S m now i x st) =
     (if i = 0 \<and> x = FENCE then True else inFrontmatter st \<and> x \<noteq> FENCE)"
  by (simp add: rewriteLine_def split: option.splits)

lemma inFrontmatter_walk: "inFrontmatter (walk S m now pre) = frontmatter_open pre"
proof (induction pre rule: rev_induct)
  case Nil
  then show ?case by (simp add: walk_Nil rewrite0_def frontmatter_open_def)
next
  case (snoc x pre)
  show ?case
  proof (cases "pre = []")
    case True
    then show ?thesis
      by (simp add: walk_single inFrontmatter_rewriteLine rewrite0_def frontmatter_open_def)
  next
    case False
    have "inFrontmatter (walk S m now (pre @ [x])) = (frontmatter_open pre \<and> x \<noteq> FENCE)"
      using False snoc by (simp add: walk_snoc inFrontmatter_rewriteLine)
    moreover have "frontmatter_open (pre @ [x]) = (frontmatter_open pre \<and> x \<noteq> FENCE)"
      using False by (cases pre) (auto simp: frontmatter_open_def)
    ultimately show ?thesis by simp
  qed
qed

text \<open>What one iteration appends.\<close>

lemma newLines_rewriteLine:
  "\<exists>e. newLines (rewriteLine S m now i x st) = newLines st @ e"
  by (simp add: rewriteLine_def split: option.splits)

lemma newLines_rewriteLines:
  "\<exists>e. newLines (rewriteLines S m now i xs st) = newLines st @ e"
proof (induction xs arbitrary: i st)
  case Nil
  then show ?case by simp
next
  case (Cons x xs)
  obtain e1 where e1: "newLines (rewriteLine S m now i x st) = newLines st @ e1"
    using newLines_rewriteLine by blast
  obtain e2 where "newLines (rewriteLines S m now (Suc i) xs (rewriteLine S m now i x st)) =
      newLines (rewriteLine S m now i x st) @ e2"
    using Cons.IH by blast
  then show ?case using e1 by simp
qed

lemma walk_take_Suc:
  "i < length lns \<Longrightarrow>
   walk S m now (take (Suc i) lns) = rewriteLine S m now i (lns ! i) (walk S m now (take i lns))"
  by (simp add: take_Suc_conv_app_nth walk_snoc)

lemma written_for_eq:
  assumes "i < length lns"
  shows "newLines (rewriteLine S m now i (lns ! i) (walk S m now (take i lns))) =
           newLines (walk S m now (take i lns)) @ written_for S m now lns i"
proof -
  obtain e where "newLines (rewriteLine S m now i (lns ! i) (walk S m now (take i lns))) =
           newLines (walk S m now (take i lns)) @ e"
    using newLines_rewriteLine by blast
  then show ?thesis using assms by (simp add: written_for_def walk_take_Suc)
qed

lemma newLines_walk_concat:
  "newLines (walk S m now lns) = concat (map (written_for S m now lns) [0..<length lns])"
proof -
  have "k \<le> length lns \<Longrightarrow>
        newLines (walk S m now (take k lns)) = concat (map (written_for S m now lns) [0..<k])" for k
  proof (induction k)
    case 0
    then show ?case by (simp add: walk_Nil rewrite0_def)
  next
    case (Suc k)
    then have k: "k < length lns" by simp
    show ?case
      using Suc written_for_eq [OF k, of S m now] by (simp add: walk_take_Suc k)
  qed
  from this [of "length lns"] show ?thesis by simp
qed

section \<open>Step 1: the completion updates\<close>

lemma apply_updates_Nil: "apply_updates [] t = t"
  by (simp add: apply_updates_def)

lemma apply_updates_Cons:
  "apply_updates (u # us) t = apply_updates us (set_completed (fst u) (snd u) t)"
  by (simp add: apply_updates_def)

lemma accepted_frame:
  "online w' = online w \<Longrightarrow> rejects w' = rejects w \<Longrightarrow> accepted w' = accepted w"
  by (auto simp: accepted_def fun_eq_iff)

lemma pushCompletions_eq:
  "pushCompletions m em (n, w) =
     (n + length (filter (accepted w) (pushes m em)),
      w\<lparr> requests := requests w @ pushes m em,
         project_tasks :=
           (\<lambda>k. map (apply_updates (filter (accepted w) (pushes m em))) (project_tasks w k)),
         user_tasks :=
           (\<lambda>k. map (apply_updates (filter (accepted w) (pushes m em))) (user_tasks w k)) \<rparr>)"
proof (induction em arbitrary: n w)
  case Nil
  then show ?case by (simp add: pushes_def apply_updates_def)
next
  case (Cons e em)
  obtain g lt where e: "e = (g, lt)" by (cases e)
  show ?case
  proof (cases "conflict m e")
    case False
    then have "pushCompletions m (e # em) (n, w) = pushCompletions m em (n, w)"
      using e by (auto simp: conflict_def split: option.splits)
    moreover have "pushes m (e # em) = pushes m em"
      using False by (simp add: pushes_def)
    ultimately show ?thesis using Cons.IH by simp
  next
    case True
    then obtain a where a: "m g = Some a" "p_completed lt \<noteq> t_completed a"
      using e by (auto simp: conflict_def split: option.splits)
    let ?u = "(g, p_completed lt)"
    have ps: "pushes m (e # em) = ?u # pushes m em"
      using True e by (simp add: pushes_def)
    show ?thesis
    proof (cases "accepted w ?u")
      case True
      define w1 where
        "w1 = w\<lparr> requests := requests w @ [?u],
                 project_tasks := (\<lambda>k. map (set_completed g (p_completed lt)) (project_tasks w k)),
                 user_tasks := (\<lambda>k. map (set_completed g (p_completed lt)) (user_tasks w k)) \<rparr>"
      have u: "updateTaskCompletion g (p_completed lt) w = (None, w1)"
        using True by (simp add: updateTaskCompletion_def accepted_def Let_def w1_def)
      have acc: "accepted w1 = accepted w"
        by (rule accepted_frame) (simp_all add: w1_def)
      have "pushCompletions m (e # em) (n, w) = pushCompletions m em (Suc n, w1)"
        using e a u by simp
      then show ?thesis
        using Cons.IH [of "Suc n" w1] ps True acc
        by (simp add: w1_def apply_updates_Cons comp_def)
    next
      case False
      define w1 where "w1 = w\<lparr> requests := requests w @ [?u] \<rparr>"
      have u: "updateTaskCompletion g (p_completed lt) w = (Some ApiError, w1)"
        using False by (auto simp: updateTaskCompletion_def accepted_def Let_def w1_def)
      have acc: "accepted w1 = accepted w"
        by (rule accepted_frame) (simp_all add: w1_def)
      have "pushCompletions m (e # em) (n, w) = pushCompletions m em (n, w1)"
        using e a u by simp
      then show ?thesis
        using Cons.IH [of n w1] ps False acc by (simp add: w1_def)
    qed
  qed
qed

section \<open>A pass over an existing note\<close>

lemma fetchTasks_online: "fetchTasks sp w = Inr ts \<Longrightarrow> online w"
  by (auto simp: fetchTasks_def fetchProjectTasks_def fetchUserTasks_def
           split: option.splits if_splits)

lemma fetchTasks_map:
  assumes "fetchTasks sp w = Inr ts"
  shows "fetchTasks sp (w\<lparr> requests := rq, project_tasks := (\<lambda>k. map F (project_tasks w k)),
                           user_tasks := (\<lambda>k. map F (user_tasks w k)) \<rparr>) = Inr (map F ts)"
  using assms
  by (auto simp: fetchTasks_def fetchProjectTasks_def fetchUserTasks_def
           split: option.splits if_splits)

text \<open>A pass over an existing note, in closed form.\<close>

lemma syncExisting_eq:
  assumes "fetchTasks sp w = Inr ts"
  shows "syncExisting S sp ts content w =
     (Inr \<lparr> added = length (newTasksOf S (seenGids (walked S w ts content)) (refreshed w ts content)),
            updated = nUpdated (walked S w ts content),
            completionChanges = length (filter (accepted w) (sent ts content)) \<rparr>,
      (let w1 = w\<lparr> requests := requests w @ sent ts content,
                   project_tasks := (\<lambda>k. map (apply_updates (filter (accepted w) (sent ts content)))
                                            (project_tasks w k)),
                   user_tasks := (\<lambda>k. map (apply_updates (filter (accepted w) (sent ts content)))
                                         (user_tasks w k)) \<rparr>
       in if join_nl (final_lines S sp w ts content) \<noteq> content
          then w1\<lparr> entries := (entries w1)(notePath sp \<mapsto> TFile (join_nl (final_lines S sp w ts content))),
                   modified := modified w1 @ [notePath sp] \<rparr>
          else w1))"
  unfolding syncExisting_def
  using fetchTasks_map [OF assms, where rq = "requests w @ sent ts content"
          and F = "apply_updates (filter (accepted w) (sent ts content))"]
  by (simp add: pushCompletions_eq Let_def sent_def local_map_def refreshed_def walked_def
        final_lines_def walk_def)

lemma syncProject_existing:
  assumes "entries w (notePath sp) = Some (TFile content)" "fetchTasks sp w = Inr ts"
  shows "syncProject S sp w = syncExisting S sp ts content w"
  using assms by (simp add: syncProject_def)

lemma sync_stats:
  assumes "entries w (notePath sp) = Some (TFile content)" "fetchTasks sp w = Inr ts"
  shows "fst (syncProject S sp w) =
     Inr \<lparr> added = length (newTasksOf S (seenGids (walked S w ts content)) (refreshed w ts content)),
            updated = nUpdated (walked S w ts content),
            completionChanges = length (filter (accepted w) (sent ts content)) \<rparr>"
  using assms by (simp add: syncProject_existing syncExisting_eq)

lemma sync_note:
  assumes "entries w (notePath sp) = Some (TFile content)" "fetchTasks sp w = Inr ts"
  shows "entries (snd (syncProject S sp w)) (notePath sp) =
           Some (TFile (join_nl (final_lines S sp w ts content)))"
  using assms by (simp add: syncProject_existing syncExisting_eq Let_def)

lemma sync_issued:
  assumes "entries w (notePath sp) = Some (TFile content)" "fetchTasks sp w = Inr ts"
  shows "issued w (snd (syncProject S sp w)) = sent ts content"
  using assms by (simp add: syncProject_existing syncExisting_eq Let_def issued_def)

lemma sync_refetch:
  assumes "entries w (notePath sp) = Some (TFile content)" "fetchTasks sp w = Inr ts"
  shows "fetchTasks sp (snd (syncProject S sp w)) = Inr (refreshed w ts content)"
proof -
  have "fetchTasks sp (w\<lparr> requests := requests w @ sent ts content,
          project_tasks := (\<lambda>k. map (apply_updates (filter (accepted w) (sent ts content))) (project_tasks w k)),
          user_tasks := (\<lambda>k. map (apply_updates (filter (accepted w) (sent ts content))) (user_tasks w k)) \<rparr>)
        = Inr (refreshed w ts content)"
    using fetchTasks_map [OF assms(2)] by (simp add: refreshed_def)
  then show ?thesis
    using assms
    by (auto simp: syncProject_existing syncExisting_eq Let_def fetchTasks_def fetchProjectTasks_def
        fetchUserTasks_def split: option.splits if_splits)
qed

section \<open>Step 3: new tasks\<close>



lemma insertSection_keeps: "set lns \<subseteq> set (insertSection S lns g)"
proof -
  have "set lns = set (take k lns) \<union> set (drop k lns)" for k
    by (metis append_take_drop_id set_append)
  then show ?thesis
    by (auto simp: insertSection_def Let_def split: option.splits)
qed

lemma foldl_insertSection_keeps: "set lns \<subseteq> set (foldl (insertSection S) lns gs)"
proof (induction gs arbitrary: lns)
  case Nil
  then show ?case by simp
next
  case (Cons g gs)
  show ?case using Cons.IH [of "insertSection S lns g"] insertSection_keeps [of lns S g] by auto
qed

lemma appendNewTasks_keeps: "set lns \<subseteq> set (appendNewTasks S sp nt lns)"
  using foldl_insertSection_keeps by (simp add: appendNewTasks_def)

section \<open>What the walk writes\<close>

lemma split_nl_app: "split_nl (a @ 0x0A # b) = split_nl a @ split_nl b"
proof (induction a)
  case Nil
  then show ?case by simp
next
  case (Cons c a)
  obtain h t where sp: "split_nl a = h # t"
    using split_nl_nonempty [of a] by (cases "split_nl a") auto
  show ?case using Cons sp by simp
qed

lemma split_join_concat: "ls \<noteq> [] \<Longrightarrow> split_nl (join_nl ls) = concat (map split_nl ls)"
proof (induction ls rule: join_nl.induct)
  case 1
  then show ?case by simp
next
  case (2 l)
  then show ?case by simp
next
  case (3 l v va)
  then show ?case by (simp add: split_nl_app)
qed

lemma mem_split_join:
  assumes "l \<in> set ls" "0x0A \<notin> set l"
  shows "l \<in> set (split_nl (join_nl ls))"
proof -
  have "ls \<noteq> []" using assms(1) by auto
  then have "split_nl (join_nl ls) = concat (map split_nl ls)" by (rule split_join_concat)
  moreover have "l \<in> set (split_nl l)" using assms(2) by (simp add: split_nl_no_nl)
  ultimately show ?thesis using assms(1) by auto
qed

text \<open>The map of a fetch.\<close>

lemma taskMap_snoc: "taskMap (ts @ [t]) = (taskMap ts)(t_gid t \<mapsto> t)"
  by (simp add: taskMap_def)

lemma taskMap_None: "taskMap ts g = None \<longleftrightarrow> g \<notin> t_gid ` set ts"
  by (induction ts rule: rev_induct) (auto simp: taskMap_snoc taskMap_def)

lemma taskMap_Some: "taskMap ts g = Some t \<Longrightarrow> t \<in> set ts \<and> t_gid t = g"
  by (induction ts rule: rev_induct) (auto simp: taskMap_snoc taskMap_def split: if_splits)

lemma taskMap_map:
  assumes "\<And>t. t_gid (F t) = t_gid t"
  shows "taskMap (map F ts) g = map_option F (taskMap ts g)"
  by (induction ts rule: rev_induct) (auto simp: taskMap_snoc taskMap_def assms)

lemma gid_set_completed: "t_gid (set_completed g c t) = t_gid t"
  by (simp add: set_completed_def)

lemma gid_apply_updates: "t_gid (apply_updates us t) = t_gid t"
  by (induction us arbitrary: t) (simp_all add: apply_updates_Nil apply_updates_Cons gid_set_completed)

lemma taskMap_refreshed:
  "taskMap (refreshed w ts content) g =
     map_option (apply_updates (filter (accepted w) (sent ts content))) (taskMap ts g)"
  unfolding refreshed_def by (rule taskMap_map) (rule gid_apply_updates)

text \<open>What the walk writes for a line.\<close>

lemma written_for_step:
  assumes "i < length lns"
  shows "written_for S m now lns i =
           drop (length (newLines (walk S m now (take i lns))))
                (newLines (rewriteLine S m now i (lns ! i) (walk S m now (take i lns))))"
  using assms by (simp add: written_for_def walk_take_Suc)

lemma written_for_body:
  assumes "i < length lns" "\<not> frontmatter_open (take i lns)" "\<not> startsWith (lns ! i) H2"
      and "gid_of_line (lns ! i) = Some g"
  shows "written_for S m now lns i =
           (case m g of
              None \<Rightarrow> [lns ! i]
            | Some t \<Rightarrow> if \<not> showCompletedTasks S \<and> t_completed t then []
                        else [formatTaskLine t (showDueDates S) (showAssignees S)])"
proof -
  have nf: "lns ! i \<noteq> FENCE" using assms(4) gid_of_line_FENCE by auto
  have inf: "\<not> inFrontmatter (walk S m now (take i lns))"
    using assms(2) by (simp add: inFrontmatter_walk)
  show ?thesis
    using nf inf assms(3,4)
    by (simp add: written_for_step [OF assms(1)] rewriteLine_def split: option.splits)
qed

lemma written_for_keep:
  assumes "i < length lns"
      and "\<not> (frontmatter_open (take i lns) \<and> startsWith (lns ! i) (js ''asana_last_sync:''))"
      and "\<forall>g. gid_of_line (lns ! i) = Some g \<longrightarrow> m g = None"
  shows "lns ! i \<in> set (written_for S m now lns i)"
  using assms(2,3)
  by (auto simp: written_for_step [OF assms(1)] rewriteLine_def inFrontmatter_walk
           split: option.splits)

lemma written_in_newLines:
  assumes "i < length lns" "l \<in> set (written_for S m now lns i)"
  shows "l \<in> set (newLines (walk S m now lns))"
  using assms by (auto simp: newLines_walk_concat)

lemma kept_in_final:
  assumes "split_nl content = lns" "i < length lns"
      and "lns ! i \<in> set (written_for S (taskMap (refreshed w ts content)) (clock w) lns i)"
  shows "lns ! i \<in> set (split_nl (join_nl (final_lines S sp w ts content)))"
proof -
  have "lns ! i \<in> set (newLines (walked S w ts content))"
    using written_in_newLines [OF assms(2,3)] assms(1) by (simp add: walked_def)
  then have "lns ! i \<in> set (final_lines S sp w ts content)"
    unfolding final_lines_def by (rule subsetD [OF appendNewTasks_keeps])
  moreover have "0x0A \<notin> set (lns ! i)"
    using split_nl_lines_no_nl [of "lns ! i" content] assms(1,2) by simp
  ultimately show ?thesis by (rule mem_split_join)
qed

section \<open>The identifier map of the note\<close>

lemma existingTaskMap_snoc:
  "existingTaskMap (ts @ [t]) =
     (case or_null (p_asanaGid t) of
        None \<Rightarrow> existingTaskMap ts
      | Some g \<Rightarrow> AList.update g t (existingTaskMap ts))"
  unfolding existingTaskMap_def by simp

lemma existingTaskMap_distinct: "distinct (map fst (existingTaskMap ts))"
  by (induction ts rule: rev_induct)
     (auto simp: existingTaskMap_snoc distinct_update split: option.splits
           simp: existingTaskMap_def [where tasks = "[]"])

lemma existingTaskMap_source:
  "map_of (existingTaskMap ts) g = Some t \<Longrightarrow> t \<in> set ts \<and> or_null (p_asanaGid t) = Some g"
  by (induction ts rule: rev_induct)
     (auto simp: existingTaskMap_snoc update_conv' existingTaskMap_def [where tasks = "[]"]
           split: option.splits if_splits)

lemma existingTaskMap_mem:
  "(g, t) \<in> set (existingTaskMap ts) \<Longrightarrow> t \<in> set ts \<and> or_null (p_asanaGid t) = Some g"
  using existingTaskMap_source [of ts g t] existingTaskMap_distinct [of ts]
  by simp

lemma pushes_source:
  "u \<in> set (pushes m em) \<Longrightarrow> \<exists>t. (fst u, t) \<in> set em \<and> snd u = p_completed t \<and> conflict m (fst u, t)"
  by (auto simp: pushes_def)

lemma or_null_Some: "or_null x = Some g \<Longrightarrow> x = Some g"
  by (auto simp: or_null_def split: option.splits if_splits)

section \<open>The updates for one identifier\<close>

lemma apply_updates_snoc:
  "apply_updates (us @ [u]) t = set_completed (fst u) (snd u) (apply_updates us t)"
  by (simp add: apply_updates_def)

lemma apply_updates_gid:
  assumes "t_gid t = g"
  shows "apply_updates us t =
           (case filter (\<lambda>u. fst u = g) us of
              [] \<Rightarrow> t
            | v # vs \<Rightarrow> t\<lparr> t_completed := snd (last (v # vs)) \<rparr>)"
proof (induction us rule: rev_induct)
  case Nil
  then show ?case by (simp add: apply_updates_Nil)
next
  case (snoc u us)
  have g: "t_gid (apply_updates us t) = g" using assms by (simp add: gid_apply_updates)
  show ?case
  proof (cases "fst u = g")
    case True
    then show ?thesis
      using snoc g assms
      by (auto simp: apply_updates_snoc set_completed_def split: list.splits)
  next
    case False
    then show ?thesis
      using snoc g by (simp add: apply_updates_snoc set_completed_def)
  qed
qed

text \<open>The updates step 1 sends for one identifier: at most one, since a map has each key once.\<close>

lemma pushes_for_gid:
  assumes "distinct (map fst em)"
  shows "filter (\<lambda>u. fst u = g) (pushes m em) =
           (case map_of em g of
              None \<Rightarrow> []
            | Some lt \<Rightarrow> if conflict m (g, lt) then [(g, p_completed lt)] else [])"
  using assms
proof (induction em)
  case Nil
  then show ?case by (simp add: pushes_def)
next
  case (Cons e em)
  obtain k lt where e: "e = (k, lt)" by (cases e)
  have ih: "filter (\<lambda>u. fst u = g) (pushes m em) =
           (case map_of em g of
              None \<Rightarrow> []
            | Some lt \<Rightarrow> if conflict m (g, lt) then [(g, p_completed lt)] else [])"
    using Cons by simp
  have ps: "pushes m (e # em) = (if conflict m e then [(k, p_completed lt)] else []) @ pushes m em"
    using e by (simp add: pushes_def)
  show ?case
  proof (cases "k = g")
    case True
    then have "map_of em g = None"
      using Cons.prems e by (simp add: map_of_eq_None_iff)
    then show ?thesis using ih ps True e by simp
  next
    case False
    then show ?thesis using ih ps e by simp
  qed
qed

lemma sent_for_gid:
  "filter (\<lambda>u. fst u = g) (sent ts content) =
     (case map_of (local_map content) g of
        None \<Rightarrow> []
      | Some lt \<Rightarrow> if conflict (taskMap ts) (g, lt) then [(g, p_completed lt)] else [])"
  unfolding sent_def
  by (rule pushes_for_gid) (simp add: local_map_def existingTaskMap_distinct)

lemma filter_accepted_gid:
  "filter (\<lambda>u. fst u = g) (filter (accepted w) us) =
     filter (accepted w) (filter (\<lambda>u. fst u = g) us)"
  by (induction us) auto

section \<open>Facts about the concrete lines, tasks and worlds\<close>

lemma task1_fields:
  "t_gid (task1 c) = js ''1''" "t_completed (task1 c) = c" "t_memberships (task1 c) = []"
  by (simp_all add: task1_def)

lemma cfg_fields:
  "showCompletedTasks (cfg b) = b" "showDueDates (cfg b) = True" "showAssignees (cfg b) = True"
  "asanaAccessToken (cfg b) = js ''tok''"
  by (simp_all add: cfg_def)

lemma format_task1: "formatTaskLine (task1 c) True True = (if c then LINE1X else LINE1)"
  by (simp add: formatTaskLine_def task1_def LINE1_def LINE1X_def or_null_def js_def)

lemma fetch_remote_world: "fetchTasks SP (remote_world es ts now) = Inr ts"
  by (simp add: fetchTasks_def fetchProjectTasks_def SP_def remote_world_def or_null_def)

lemma entries_vault1: "entries (remote_world (vault1 c) ts now) (notePath SP) = Some (TFile c)"
  by (simp add: remote_world_def vault1_def)

lemma taskMap_single: "taskMap [t] = Map.empty(t_gid t \<mapsto> t)"
  by (simp add: taskMap_def)

lemma parse_LINE1:
  "parseTaskLine LINE1 i =
     Some \<lparr> p_line = LINE1, p_lineNumber = i, p_completed = False, p_name = js ''T'',
            p_asanaGid = Some (js ''1''), p_dueDate = None, p_assignee = None \<rparr>"
  unfolding LINE1_def by (simp add: parseTaskLine_def rx_defs)

lemma parse_LINE1X:
  "parseTaskLine LINE1X i =
     Some \<lparr> p_line = LINE1X, p_lineNumber = i, p_completed = True, p_name = js ''T'',
            p_asanaGid = Some (js ''1''), p_dueDate = None, p_assignee = None \<rparr>"
  unfolding LINE1X_def by (simp add: parseTaskLine_def rx_defs)

lemma parse_LINE1_NOTE:
  "parseTaskLine LINE1_NOTE i =
     Some \<lparr> p_line = LINE1_NOTE, p_lineNumber = i, p_completed = False,
            p_name = js ''T <!-- asana:1 --> (urgent)'', p_asanaGid = None, p_dueDate = None,
            p_assignee = None \<rparr>"
  unfolding LINE1_NOTE_def by (simp add: parseTaskLine_def rx_defs)

lemma parse_LINE_MINE:
  "parseTaskLine LINE_MINE i =
     Some \<lparr> p_line = LINE_MINE, p_lineNumber = i, p_completed = False, p_name = js ''Mine'',
            p_asanaGid = None, p_dueDate = None, p_assignee = None \<rparr>"
  unfolding LINE_MINE_def by (simp add: parseTaskLine_def rx_defs)

lemma gid_LINE1: "gid_of_line LINE1 = Some (js ''1'')"
  unfolding LINE1_def by (simp add: gid_of_line_def ASANA_GID_REGEX_def rx_defs)

lemma gid_LINE1X: "gid_of_line LINE1X = Some (js ''1'')"
  unfolding LINE1X_def by (simp add: gid_of_line_def ASANA_GID_REGEX_def rx_defs)

lemma gid_LINE1_NOTE: "gid_of_line LINE1_NOTE = Some (js ''1'')"
  unfolding LINE1_NOTE_def by (simp add: gid_of_line_def ASANA_GID_REGEX_def rx_defs)

lemma gid_LINE9: "gid_of_line LINE9 = Some (js ''9'')"
  unfolding LINE9_def by (simp add: gid_of_line_def ASANA_GID_REGEX_def rx_defs)

lemma gid_LINE_MINE: "gid_of_line LINE_MINE = None"
  unfolding LINE_MINE_def by (simp add: gid_of_line_def ASANA_GID_REGEX_def rx_defs)

lemma no_nl_lines:
  "0x0A \<notin> set LINE1" "0x0A \<notin> set LINE1X" "0x0A \<notin> set LINE1_NOTE" "0x0A \<notin> set LINE9"
  "0x0A \<notin> set LINE_MINE"
  by (simp_all add: LINE1_def LINE1X_def LINE1_NOTE_def LINE9_def LINE_MINE_def js_def)

lemma split_lines:
  "split_nl LINE1 = [LINE1]" "split_nl LINE1X = [LINE1X]" "split_nl LINE1_NOTE = [LINE1_NOTE]"
  "split_nl LINE9 = [LINE9]" "split_nl LINE_MINE = [LINE_MINE]"
  by (simp_all add: split_nl_no_nl no_nl_lines)

lemma lines_plain:
  "LINE1 \<noteq> FENCE" "LINE1X \<noteq> FENCE" "LINE1_NOTE \<noteq> FENCE" "LINE9 \<noteq> FENCE" "LINE_MINE \<noteq> FENCE"
  "\<not> startsWith LINE1 H2" "\<not> startsWith LINE1X H2" "\<not> startsWith LINE1_NOTE H2"
  "\<not> startsWith LINE9 H2" "\<not> startsWith LINE_MINE H2"
  by (simp_all add: LINE1_def LINE1X_def LINE1_NOTE_def LINE9_def LINE_MINE_def FENCE_def H2_def
        startsWith_def js_def)

lemma lines_distinct:
  "LINE1_NOTE \<noteq> LINE1" "LINE1 \<noteq> LINE1X" "LINE1X \<noteq> LINE1"
  by (simp_all add: LINE1_NOTE_def LINE1_def LINE1X_def js_def)

text \<open>The tasks that \<open>parseNoteContent\<close> finds in a note of one line outside any frontmatter.\<close>

lemma tasks_one_line:
  assumes "split_nl c = [c]" "c \<noteq> FENCE" "\<not> startsWith c H2"
  shows "n_tasks (parseNoteContent c) = (case parseTaskLine c 0 of None \<Rightarrow> [] | Some t \<Rightarrow> [t])"
  using assms by (simp add: parseNoteContent_def parseLine_def doc0_def split: option.splits)

section \<open>One-line notes\<close>

lemma local_map_LINE1:
  "local_map LINE1 =
     [(js ''1'', \<lparr> p_line = LINE1, p_lineNumber = 0, p_completed = False, p_name = js ''T'',
                    p_asanaGid = Some (js ''1''), p_dueDate = None, p_assignee = None \<rparr>)]"
  by (simp add: local_map_def tasks_one_line split_lines lines_plain parse_LINE1
        existingTaskMap_def or_null_def js_def)

lemma local_map_LINE1X:
  "local_map LINE1X =
     [(js ''1'', \<lparr> p_line = LINE1X, p_lineNumber = 0, p_completed = True, p_name = js ''T'',
                    p_asanaGid = Some (js ''1''), p_dueDate = None, p_assignee = None \<rparr>)]"
  by (simp add: local_map_def tasks_one_line split_lines lines_plain parse_LINE1X
        existingTaskMap_def or_null_def js_def)

lemma task1_flip: "set_completed (js ''1'') c (task1 b) = task1 c"
  by (simp add: set_completed_def task1_def)

lemma accepted_remote_world: "accepted (remote_world es ts now) u"
  by (simp add: accepted_def remote_world_def)

lemma clock_remote_world: "clock (remote_world es ts now) = now"
  by (simp add: remote_world_def)

text \<open>
  The updates sent and the second fetch, for the one-line notes \<open>LINE1\<close> and \<open>LINE1X\<close>
  against a remote list that holds task 1.
\<close>

lemma sent_one_line:
  "sent [task1 b] LINE1 = (if b then [(js ''1'', False)] else [])"
  "sent [task1 b] LINE1X = (if b then [] else [(js ''1'', True)])"
  by (simp_all add: sent_def pushes_def conflict_def local_map_LINE1 local_map_LINE1X
        taskMap_single task1_fields)

lemma refreshed_one_line:
  "refreshed (remote_world es ts now) [task1 b] LINE1 = [task1 False]"
  "refreshed (remote_world es ts now) [task1 b] LINE1X = [task1 True]"
  by (simp_all add: refreshed_def sent_one_line accepted_remote_world apply_updates_def task1_flip)

text \<open>The walk over a note of one task line that carries the identifier of task 1.\<close>

lemma walk_one_line:
  assumes "c \<noteq> FENCE" "\<not> startsWith c H2" "gid_of_line c = Some (js ''1'')"
  shows "walk (cfg sc) (taskMap [task1 b]) now [c] =
           (if \<not> sc \<and> b
            then rewrite0\<lparr> seenGids := {js ''1''} \<rparr>
            else rewrite0\<lparr> newLines := [if b then LINE1X else LINE1], seenGids := {js ''1''},
                           nUpdated := 1 \<rparr>)"
  using assms
  by (simp add: walk_def rewriteLine_def rewrite0_def taskMap_single task1_fields cfg_fields
        format_task1)

section \<open>The matcher\<close>

lemma run_seq_single: "run a st = [x] \<Longrightarrow> run (Seq a b) st = run b x"
  by simp

lemma run_seq_first:
  assumes "run a st = x # xs" "run b x = r # rs"
  shows "\<exists>rs'. run (Seq a b) st = r # rs'"
  using assms by simp

lemma run_lit: "run (Lit l) (l @ s, c) = [(s, c)]"
  by simp

lemma run_lit_fails: "\<not> prefix l s \<Longrightarrow> run (Lit l) (s, c) = []"
  by simp

lemma star_greedy_hd: "\<exists>rest. star_greedy p s = dropWhile p s # rest"
  by (induction s) auto

lemma star_greedy_none: "s = [] \<or> \<not> p (hd s) \<Longrightarrow> star_greedy p s = [s]"
  by (cases s) auto

text \<open>
  A greedy star before a pattern that cannot start with a character of the star's class
  takes the longest run: backtracking into the star never helps.
\<close>

lemma run_star_seq:
  assumes "\<And>s c. s \<noteq> [] \<Longrightarrow> p (hd s) \<Longrightarrow> run X (s, c) = []"
  shows "run (Seq (StarG p) X) (s, c) = run X (dropWhile p s, c)"
proof (induction s)
  case Nil
  then show ?case by simp
next
  case (Cons x xs)
  show ?case
  proof (cases "p x")
    case True
    have "run X (x # xs, c) = []" using assms [of "x # xs" c] True by simp
    then show ?thesis using Cons True by simp
  next
    case False
    then show ?thesis by simp
  qed
qed

lemma run_lit_space:
  assumes "l \<noteq> []" "\<not> p (hd l)" "s \<noteq> []" "p (hd s)"
  shows "run (Lit l) (s, c) = []"
proof -
  have "\<not> prefix l s"
    using assms by (cases l; cases s) auto
  then show ?thesis by simp
qed

lemma run_star_lit:
  assumes "l \<noteq> []" "\<not> p (hd l)"
  shows "run (Seq (StarG p) (Lit l)) (s, c) =
           (if prefix l (dropWhile p s) then [(drop (length l) (dropWhile p s), c)] else [])"
proof -
  have "run (Seq (StarG p) (Lit l)) (s, c) = run (Lit l) (dropWhile p s, c)"
    by (rule run_star_seq) (rule run_lit_space [where p = p and l = l, OF assms])
  then show ?thesis by simp
qed

lemma run_star_lit_seq:
  assumes "l \<noteq> []" "\<not> p (hd l)"
  shows "run (Seq (StarG p) (Seq (Lit l) Y)) (s, c) =
           (if prefix l (dropWhile p s) then run Y (drop (length l) (dropWhile p s), c) else [])"
proof -
  have "run (Seq (StarG p) (Seq (Lit l) Y)) (s, c) = run (Seq (Lit l) Y) (dropWhile p s, c)"
  proof (rule run_star_seq)
    fix s' :: jsstring and c' :: caps
    assume "s' \<noteq> []" "p (hd s')"
    then have "run (Lit l) (s', c') = []"
      by (rule run_lit_space [where p = p and l = l, OF assms])
    then show "run (Seq (Lit l) Y) (s', c') = []" by simp
  qed
  then show ?thesis by simp
qed

lemma run_star_eol:
  "run (Seq (StarG p) Eol) (s, c) = (if dropWhile p s = [] then [([], c)] else [])"
proof -
  have "run (Seq (StarG p) Eol) (s, c) = run Eol (dropWhile p s, c)"
    by (rule run_star_seq) simp
  then show ?thesis by simp
qed

text \<open>
  A lazy plus followed by a pattern \<open>T\<close>: the alternatives that end inside \<open>u\<close> come
  first; when \<open>T\<close> fails after each of them, the first results are those of \<open>T\<close> after
  all of \<open>u\<close>.
\<close>

lemma lazy_skip:
  assumes "u \<noteq> []" "\<forall>x \<in> set u. p x"
      and "\<forall>k. 0 < k \<and> k < length u \<longrightarrow> (\<forall>c. run T (drop k u @ v, c) = [])"
  shows "\<exists>rest. concat (map (\<lambda>s'. run T (s', f s')) (plus_lazy p (u @ v))) =
                 run T (v, f v) @ rest"
  using assms
proof (induction u)
  case Nil
  then show ?case by simp
next
  case (Cons x u)
  show ?case
  proof (cases "u = []")
    case True
    then show ?thesis using Cons.prems by simp
  next
    case False
    have f1: "run T (u @ v, f (u @ v)) = []"
      using Cons.prems(3) False by (auto dest: spec [of _ 1])
    have "\<forall>k. 0 < k \<and> k < length u \<longrightarrow> (\<forall>c. run T (drop k u @ v, c) = [])"
    proof (intro allI impI)
      fix k c assume "0 < k \<and> k < length u"
      then have "0 < Suc k \<and> Suc k < length (x # u)" by simp
      then have "run T (drop (Suc k) (x # u) @ v, c) = []" using Cons.prems(3) by blast
      then show "run T (drop k u @ v, c) = []" by simp
    qed
    then obtain rest where
      "concat (map (\<lambda>s'. run T (s', f s')) (plus_lazy p (u @ v))) = run T (v, f v) @ rest"
      using Cons.IH False Cons.prems(2) by auto
    then show ?thesis using Cons.prems(2) f1 by simp
  qed
qed

lemma run_grp_lazy_seq:
  "run (Seq (Grp i (PlusL p)) T) (s, c) =
     concat (map (\<lambda>s'. run T (s', c(i \<mapsto> take (length s - length s') s))) (plus_lazy p s))"
  by (simp add: comp_def)

lemma grp_lazy_first:
  assumes "u \<noteq> []" "\<forall>x \<in> set u. p x"
      and "\<forall>k. 0 < k \<and> k < length u \<longrightarrow> (\<forall>c. run T (drop k u @ v, c) = [])"
      and "run T (v, c(i \<mapsto> u)) = r # rs"
  shows "\<exists>rs'. run (Seq (Grp i (PlusL p)) T) (u @ v, c) = r # rs'"
proof -
  let ?f = "\<lambda>s'. c(i \<mapsto> take (length (u @ v) - length s') (u @ v))"
  obtain rest where
    e: "concat (map (\<lambda>s'. run T (s', ?f s')) (plus_lazy p (u @ v))) = run T (v, ?f v) @ rest"
    using lazy_skip [OF assms(1,2,3), of ?f] by blast
  have fv: "?f v = c(i \<mapsto> u)" by simp
  have "run (Seq (Grp i (PlusL p)) T) (u @ v, c) = run T (v, c(i \<mapsto> u)) @ rest"
    unfolding run_grp_lazy_seq e fv ..
  then show ?thesis using assms(4) by simp
qed

lemma leadsI: "run r st = x # xs \<Longrightarrow> leads r st x"
  by (simp add: leads_def)

lemma leadsD: "leads r st x \<Longrightarrow> \<exists>xs. run r st = x # xs"
  by (cases "run r st") (simp_all add: leads_def)

lemma leads_seq: "leads a st x \<Longrightarrow> leads b x r \<Longrightarrow> leads (Seq a b) st r"
  by (auto dest!: leadsD intro: leadsI)

lemma leads_single: "run a st = [x] \<Longrightarrow> leads b x r \<Longrightarrow> leads (Seq a b) st r"
  by (auto dest!: leadsD intro: leadsI)

lemma leads_opt_seq: "leads (Seq a b) st r \<Longrightarrow> leads (Seq (OptG a) b) st r"
  by (auto dest!: leadsD intro: leadsI)

lemma leads_opt_skip: "run a st = [] \<Longrightarrow> leads b st r \<Longrightarrow> leads (Seq (OptG a) b) st r"
  by (auto dest!: leadsD intro: leadsI)

lemma concat_map_concat:
  "concat (map f (concat xss)) = concat (map (\<lambda>xs. concat (map f xs)) xss)"
  by (induction xss) auto

lemma run_seq_assoc: "run (Seq (Seq a b) c) st = run (Seq a (Seq b c)) st"
proof -
  have "run (Seq b c) = (\<lambda>x. concat (map (run c) (run b x)))"
    by (rule ext) simp
  then show ?thesis by (simp add: concat_map_concat comp_def)
qed

lemma exec_leads: "leads r (s, \<lambda>_. None) (s', c) \<Longrightarrow> rx_exec_anchored r s = Some c"
  by (auto dest!: leadsD simp: rx_exec_anchored_def)

section \<open>The pieces of the task line pattern\<close>

lemma date_run:
  assumes "is_date d"
  shows "run DATE_RX (d @ s, c) = [(s, c)]"
proof -
  from assms obtain y1 y2 y3 y4 m1 m2 d1 d2 where
    d: "d = [y1, y2, y3, y4, 0x2D, m1, m2, 0x2D, d1, d2]"
    and g: "is_digit y1" "is_digit y2" "is_digit y3" "is_digit y4" "is_digit m1" "is_digit m2"
           "is_digit d1" "is_digit d2"
    by (auto elim!: is_date.elims(2))
  show ?thesis using g by (simp add: d DATE_RX_def js_def)
qed

lemma date_start: "is_date d \<Longrightarrow> d \<noteq> [] \<and> \<not> is_space (hd d)"
  by (auto elim!: is_date.elims(2) simp: is_digit_def is_space_def)

lemma date_length: "is_date d \<Longrightarrow> length d = 10"
  by (auto elim!: is_date.elims(2))

lemma grp_date_space:
  assumes "s \<noteq> []" "is_space (hd s)"
  shows "run (Grp i DATE_RX) (s, c) = []"
proof -
  obtain x xs where s: "s = x # xs" using assms(1) by (cases s) auto
  have "\<not> is_digit x" using assms(2) s by (auto simp: is_digit_def is_space_def)
  then show ?thesis by (simp add: s DATE_RX_def)
qed

lemma due_run:
  assumes "is_date d"
  shows "run DUE_RX (js '' '' @ CALENDAR @ js '' '' @ d @ r, c) = [(r, c(5 \<mapsto> d))]"
proof -
  have 1: "run DUE_RX (js '' '' @ CALENDAR @ js '' '' @ d @ r, c) =
           run (Seq (StarG is_space) (Grp 5 DATE_RX)) (js '' '' @ d @ r, c)"
    unfolding DUE_RX_def seqs.simps
    by (subst run_star_lit_seq) (simp_all add: CALENDAR_def js_def is_space_def)
  have 2: "run (Seq (StarG is_space) (Grp 5 DATE_RX)) (js '' '' @ d @ r, c) =
           run (Grp 5 DATE_RX) (dropWhile is_space (js '' '' @ d @ r), c)"
    by (rule run_star_seq) (rule grp_date_space)
  have 3: "dropWhile is_space (js '' '' @ d @ r) = d @ r"
    using date_start [OF assms] by (cases d) (auto simp: js_def is_space_def)
  show ?thesis
    unfolding 1 2 3 using date_run [OF assms, of r c] by simp
qed

lemma due_fails:
  assumes "\<not> prefix CALENDAR (dropWhile is_space s)"
  shows "run DUE_RX (s, c) = []"
  unfolding DUE_RX_def seqs.simps
  using assms by (subst run_star_lit_seq) (simp_all add: CALENDAR_def is_space_def)

lemma assignee_fails:
  assumes "\<not> prefix BUST (dropWhile is_space s)"
  shows "run ASSIGNEE_RX (s, c) = []"
  unfolding ASSIGNEE_RX_def seqs.simps
  using assms by (subst run_star_lit_seq) (simp_all add: BUST_def is_space_def)

lemma comment_fails:
  assumes "\<not> prefix (js ''<!--'') (dropWhile is_space s)"
  shows "run (Seq (StarG is_space) (COMMENT_RX i)) (s, c) = []"
  unfolding COMMENT_RX_def seqs.simps
  using assms by (subst run_star_lit_seq) (simp_all add: js_def is_space_def)

lemma word_not_space: "is_word x \<Longrightarrow> \<not> is_space x"
  by (auto simp: is_word_def is_digit_def is_space_def)

lemma comment_leads:
  assumes "word_gid g"
  shows "leads (COMMENT_RX i) (js ''<!-- asana:'' @ g @ js '' -->'' @ s, c) (s, c(i \<mapsto> g))"
proof -
  obtain x g' where g: "g = x # g'" "is_word x" "\<forall>y \<in> set g'. is_word y"
    using assms by (cases g) (auto simp: word_gid_def list_all_iff)
  let ?Y = "Seq (Grp i (PlusG is_word)) (Seq (StarG is_space) (Lit (js ''-->'')))"
  have dw: "dropWhile is_word (g' @ js '' -->'' @ s) = js '' -->'' @ s"
    using g(3) by (simp add: dropWhile_append2 js_def is_word_def is_digit_def)
  obtain rest where sg: "star_greedy is_word (g' @ js '' -->'' @ s) = (js '' -->'' @ s) # rest"
    using star_greedy_hd [of is_word "g' @ js '' -->'' @ s"] dw by auto
  have grp: "leads (Grp i (PlusG is_word)) (g @ js '' -->'' @ s, c) (js '' -->'' @ s, c(i \<mapsto> g))"
    using g(2) sg by (intro leadsI [where xs = "map (\<lambda>s'. (s', c(i \<mapsto> take (length (g @ js '' -->'' @ s) - length s') (g @ js '' -->'' @ s)))) rest"])
       (simp add: g(1) comp_def)
  have fin: "run (Seq (StarG is_space) (Lit (js ''-->''))) (js '' -->'' @ s, c') = [(s, c')]" for c'
    by (subst run_star_lit) (simp_all add: js_def is_space_def)
  have y: "leads ?Y (g @ js '' -->'' @ s, c) (s, c(i \<mapsto> g))"
    by (rule leads_seq [OF grp]) (rule leadsI, rule fin)
  have mid: "run (Seq (StarG is_space) (Seq (Lit (js ''asana:'')) ?Y))
               (js '' asana:'' @ g @ js '' -->'' @ s, c) = run ?Y (g @ js '' -->'' @ s, c)"
    by (subst run_star_lit_seq) (simp_all add: js_def is_space_def)
  have "leads (Seq (StarG is_space) (Seq (Lit (js ''asana:'')) ?Y))
               (js '' asana:'' @ g @ js '' -->'' @ s, c) (s, c(i \<mapsto> g))"
    using y unfolding leads_def mid .
  moreover have "run (Lit (js ''<!--'')) (js ''<!-- asana:'' @ g @ js '' -->'' @ s, c) =
                   [(js '' asana:'' @ g @ js '' -->'' @ s, c)]"
    by (simp add: js_def)
  ultimately show ?thesis
    unfolding COMMENT_RX_def seqs.simps by (rule leads_single [rotated])
qed

lemma rest_leads:
  assumes "word_gid g"
  shows "leads (Seq (OptG (Seq (StarG is_space) (COMMENT_RX 7))) (Seq (StarG is_space) Eol))
           (id_part g, c) ([], c(7 \<mapsto> g))"
proof -
  let ?E = "Seq (StarG is_space) Eol"
  let ?X = "Seq (COMMENT_RX 7) ?E"
  have x: "leads ?X (js ''<!-- asana:'' @ g @ js '' -->'' @ [], c) ([], c(7 \<mapsto> g))"
    by (rule leads_seq [OF comment_leads [OF assms]]) (rule leadsI, simp add: run_star_eol)
  have fails: "run ?X (s, c') = []" if "s \<noteq> []" "is_space (hd s)" for s c'
  proof -
    have "\<not> prefix (js ''<!--'') s" using that by (cases s) (auto simp: js_def is_space_def)
    then show ?thesis by (simp add: COMMENT_RX_def)
  qed
  have "run (Seq (StarG is_space) ?X) (id_part g, c) = run ?X (dropWhile is_space (id_part g), c)"
    by (rule run_star_seq) (rule fails)
  moreover have "dropWhile is_space (id_part g) = js ''<!-- asana:'' @ g @ js '' -->'' @ []"
    by (simp add: id_part_def js_def is_space_def)
  ultimately have "leads (Seq (StarG is_space) ?X) (id_part g, c) ([], c(7 \<mapsto> g))"
    using x unfolding leads_def by simp
  then have "leads (Seq (Seq (StarG is_space) (COMMENT_RX 7)) ?E) (id_part g, c) ([], c(7 \<mapsto> g))"
    unfolding leads_def run_seq_assoc .
  then show ?thesis by (rule leads_opt_seq)
qed

lemma rest_fails:
  assumes "dropWhile is_space s \<noteq> []" "\<not> prefix (js ''<!--'') (dropWhile is_space s)"
  shows "run (Seq (OptG (Seq (StarG is_space) (COMMENT_RX 7))) (Seq (StarG is_space) Eol)) (s, c) = []"
proof -
  have "run (Seq (StarG is_space) (COMMENT_RX 7)) (s, c) = []"
    using assms(2) by (rule comment_fails)
  moreover have "run (Seq (StarG is_space) Eol) (s, c) = []"
    using assms(1) by (simp only: run_star_eol if_False)
  ultimately show ?thesis by (simp del: run.simps(3) add: run.simps(6,7))
qed

lemma tail_fails:
  assumes "dropWhile is_space s \<noteq> []"
      and "\<not> prefix CALENDAR (dropWhile is_space s)"
      and "\<not> prefix BUST (dropWhile is_space s)"
      and "\<not> prefix (js ''<!--'') (dropWhile is_space s)"
  shows "run TAIL_RX (s, c) = []"
proof -
  let ?R = "Seq (OptG (Seq (StarG is_space) (COMMENT_RX 7))) (Seq (StarG is_space) Eol)"
  have d: "run (OptG DUE_RX) (s, c) = [(s, c)]"
    using due_fails [OF assms(2)] by simp
  have a: "run (OptG ASSIGNEE_RX) (s, c) = [(s, c)]"
    using assignee_fails [OF assms(3)] by simp
  have r: "run ?R (s, c) = []" using assms(1,4) by (rule rest_fails)
  have "run (Seq (OptG ASSIGNEE_RX) ?R) (s, c) = []"
    using a r by (simp only: run.simps(6) list.map concat.simps append_Nil2)
  then have "run (Seq (OptG DUE_RX) (Seq (OptG ASSIGNEE_RX) ?R)) (s, c) = []"
    using d by (simp only: run.simps(6) list.map concat.simps append_Nil2)
  then show ?thesis by (simp only: TAIL_RX_def seqs.simps)
qed

text \<open>
  Inside a plain text that is followed by a space, the pattern's markers do not start.
\<close>

lemma no_marker_inside:
  assumes "q \<noteq> []" "\<not> is_space (last q)" "suf \<noteq> []" "hd suf = 0x20" "0x20 \<notin> set M"
      and "\<not> sublist M q"
  shows "dropWhile is_space (q @ suf) \<noteq> [] \<and> \<not> prefix M (dropWhile is_space (q @ suf))"
proof -
  have lq: "last q \<in> set q" using assms(1) by simp
  have dw: "dropWhile is_space (q @ suf) = dropWhile is_space q @ suf"
    using lq assms(2) by (rule dropWhile_append1)
  have ne: "dropWhile is_space q \<noteq> []"
    using lq assms(2) by (auto simp: dropWhile_eq_Nil_conv)
  have "\<not> prefix M (dropWhile is_space q @ suf)"
  proof
    assume "prefix M (dropWhile is_space q @ suf)"
    then have "prefix M (dropWhile is_space q) \<or>
               (\<exists>us. M = dropWhile is_space q @ us \<and> prefix us suf \<and> us \<noteq> [])"
      by (cases "prefix M (dropWhile is_space q)") (auto simp: prefix_append)
    then consider "prefix M (dropWhile is_space q)"
      | us where "M = dropWhile is_space q @ us" "prefix us suf" "us \<noteq> []"
      by blast
    then show False
    proof cases
      case 1
      then have "sublist M (dropWhile is_space q)" by (rule prefix_imp_sublist)
      moreover have "sublist (dropWhile is_space q) q"
        by (rule suffix_imp_sublist) (rule suffix_dropWhile)
      ultimately have "sublist M q" by (rule sublist_order.order.trans)
      then show False using assms(6) by simp
    next
      case 2
      then have "hd us = hd suf" using assms(3) by (cases us; cases suf) auto
      then have "0x20 \<in> set M" using 2 assms(4) by (cases us) auto
      then show False using assms(5) by simp
    qed
  qed
  then show ?thesis using dw ne by simp
qed

lemma drop_plain:
  assumes "0 < k" "k < length s" "\<not> is_space (last s)" "\<not> sublist M s"
  shows "drop k s \<noteq> [] \<and> \<not> is_space (last (drop k s)) \<and> \<not> sublist M (drop k s)"
proof -
  have "sublist (drop k s) s" by (rule sublist_drop)
  then have "\<not> sublist M (drop k s)"
    using assms(4) sublist_order.order.trans by blast
  then show ?thesis using assms(2,3) by simp
qed

lemma title_inner_fails:
  assumes "plain_title n" "suf \<noteq> []" "hd suf = 0x20" "0 < k" "k < length n"
  shows "run TAIL_RX (drop k n @ suf, c) = []"
proof -
  have ls: "\<not> is_space (last n)" using assms(1) by (simp add: plain_title_def trimmed_def)
  have m: "\<not> sublist CALENDAR n" "\<not> sublist BUST n" "\<not> sublist (js ''<!--'') n"
    using assms(1) by (simp_all add: plain_title_def)
  have sp: "0x20 \<notin> set CALENDAR" "0x20 \<notin> set BUST" "0x20 \<notin> set (js ''<!--'')"
    by (simp_all add: CALENDAR_def BUST_def js_def)
  have q: "drop k n \<noteq> []" "\<not> is_space (last (drop k n))"
    using drop_plain [OF assms(4,5) ls m(1)] by blast+
  have 1: "dropWhile is_space (drop k n @ suf) \<noteq> [] \<and>
           \<not> prefix CALENDAR (dropWhile is_space (drop k n @ suf))"
    using drop_plain [OF assms(4,5) ls m(1)]
    by (intro no_marker_inside [OF q assms(2,3) sp(1)]) blast
  have 2: "dropWhile is_space (drop k n @ suf) \<noteq> [] \<and>
           \<not> prefix BUST (dropWhile is_space (drop k n @ suf))"
    using drop_plain [OF assms(4,5) ls m(2)]
    by (intro no_marker_inside [OF q assms(2,3) sp(2)]) blast
  have 3: "dropWhile is_space (drop k n @ suf) \<noteq> [] \<and>
           \<not> prefix (js ''<!--'') (dropWhile is_space (drop k n @ suf))"
    using drop_plain [OF assms(4,5) ls m(3)]
    by (intro no_marker_inside [OF q assms(2,3) sp(3)]) blast
  show ?thesis using 1 2 3 by (intro tail_fails) blast+
qed

lemma assignee_inner_fails:
  assumes "plain_assignee a" "0 < k" "k < length a"
  shows "run (Seq (OptG (Seq (StarG is_space) (COMMENT_RX 7))) (Seq (StarG is_space) Eol))
           (drop k a @ id_part g, c) = []"
proof -
  have ls: "\<not> is_space (last a)" and m: "\<not> sublist (js ''<!--'') a"
    using assms(1) by (simp_all add: plain_assignee_def trimmed_def)
  have q: "drop k a \<noteq> []" "\<not> is_space (last (drop k a))" "\<not> sublist (js ''<!--'') (drop k a)"
    using drop_plain [OF assms(2,3) ls m] by blast+
  have i: "id_part g \<noteq> []" "hd (id_part g) = 0x20" "0x20 \<notin> set (js ''<!--'')"
    by (simp_all add: id_part_def js_def)
  have "dropWhile is_space (drop k a @ id_part g) \<noteq> [] \<and>
        \<not> prefix (js ''<!--'') (dropWhile is_space (drop k a @ id_part g))"
    by (rule no_marker_inside [OF q(1,2) i q(3)])
  then show ?thesis by (intro rest_fails) blast+
qed

lemma run_seq_cong:
  assumes "\<And>x. run b x = run b' x"
  shows "run (Seq a b) st = run (Seq a b') st"
proof -
  have "run b = run b'" using assms by (rule ext)
  then show ?thesis by simp
qed

lemma assignee_leads:
  assumes "plain_assignee a" "word_gid g"
  shows "leads (Seq (OptG ASSIGNEE_RX)
                 (Seq (OptG (Seq (StarG is_space) (COMMENT_RX 7))) (Seq (StarG is_space) Eol)))
           (assignee_part (Some a) @ id_part g, c) ([], c(6 \<mapsto> a, 7 \<mapsto> g))"
proof -
  let ?R = "Seq (OptG (Seq (StarG is_space) (COMMENT_RX 7))) (Seq (StarG is_space) Eol)"
  let ?G = "Grp 6 (PlusL is_dot)"
  let ?S = "StarG is_space"
  have a: "a \<noteq> []" "\<not> is_space (hd a)" "\<forall>x \<in> set a. is_dot x"
    using assms(1) by (simp_all add: plain_assignee_def trimmed_def list_all_iff)
  have inner: "\<forall>k. 0 < k \<and> k < length a \<longrightarrow> (\<forall>c. run ?R (drop k a @ id_part g, c) = [])"
    using assignee_inner_fails [OF assms(1)] by blast
  obtain rs where gr: "run (Seq ?G ?R) (a @ id_part g, c) = ([], c(6 \<mapsto> a, 7 \<mapsto> g)) # rs"
    using grp_lazy_first [OF a(1,3) inner, of c 6 "([], c(6 \<mapsto> a, 7 \<mapsto> g))"]
      leadsD [OF rest_leads [OF assms(2), of "c(6 \<mapsto> a)"]]
    by auto
  have sp: "is_space 0x20" by (simp add: is_space_def)
  have "star_greedy is_space (a @ id_part g) = [a @ id_part g]"
    using a(1,2) by (intro star_greedy_none) (cases a; simp)
  then have sg: "star_greedy is_space (js '' '' @ a @ id_part g) =
                   [a @ id_part g, js '' '' @ a @ id_part g]"
    using sp by (simp add: js_def)
  have 1: "run (Seq ?S (Seq ?G ?R)) (js '' '' @ a @ id_part g, c) =
           run (Seq ?G ?R) (a @ id_part g, c) @ run (Seq ?G ?R) (js '' '' @ a @ id_part g, c)"
    by (simp only: run.simps(6) [of ?S] run.simps(3) sg list.map concat.simps append_Nil2)
  have 2: "run (Seq ?S (Seq (Lit BUST) (Seq ?S (Seq ?G ?R))))
             (js '' '' @ BUST @ js '' '' @ a @ id_part g, c) =
           run (Seq ?S (Seq ?G ?R)) (js '' '' @ a @ id_part g, c)"
    by (subst run_star_lit_seq) (simp_all add: BUST_def js_def is_space_def)
  have 3: "run (Seq ASSIGNEE_RX ?R) st = run (Seq ?S (Seq (Lit BUST) (Seq ?S (Seq ?G ?R)))) st" for st
  proof -
    have "run (Seq ASSIGNEE_RX ?R) st = run (Seq ?S (Seq (Seq (Lit BUST) (Seq ?S ?G)) ?R)) st"
      unfolding ASSIGNEE_RX_def seqs.simps by (rule run_seq_assoc)
    also have "\<dots> = run (Seq ?S (Seq (Lit BUST) (Seq (Seq ?S ?G) ?R))) st"
      by (rule run_seq_cong) (rule run_seq_assoc)
    also have "\<dots> = run (Seq ?S (Seq (Lit BUST) (Seq ?S (Seq ?G ?R)))) st"
      by (rule run_seq_cong, rule run_seq_cong, rule run_seq_assoc)
    finally show ?thesis .
  qed
  have "leads (Seq ASSIGNEE_RX ?R) (assignee_part (Some a) @ id_part g, c) ([], c(6 \<mapsto> a, 7 \<mapsto> g))"
    unfolding leads_def 3 assignee_part_def option.case append_assoc 2 1 gr by simp
  then show ?thesis by (rule leads_opt_seq)
qed

lemma assignee_opt_leads:
  assumes "case aopt of None \<Rightarrow> True | Some a \<Rightarrow> plain_assignee a" "word_gid g"
  shows "leads (Seq (OptG ASSIGNEE_RX)
                 (Seq (OptG (Seq (StarG is_space) (COMMENT_RX 7))) (Seq (StarG is_space) Eol)))
           (assignee_part aopt @ id_part g, c) ([], (with_cap 6 aopt c)(7 \<mapsto> g))"
proof (cases aopt)
  case None
  have "run ASSIGNEE_RX (id_part g, c) = []"
    by (rule assignee_fails) (simp add: id_part_def js_def BUST_def is_space_def)
  then show ?thesis
    using rest_leads [OF assms(2), of c]
    by (simp only: None assignee_part_def with_cap_def option.case append_Nil leads_opt_skip)
next
  case (Some a)
  then show ?thesis
    using assignee_leads [of a g c] assms by (simp add: with_cap_def)
qed

lemma tail_leads:
  assumes "case dopt of None \<Rightarrow> True | Some d \<Rightarrow> is_date d"
      and "case aopt of None \<Rightarrow> True | Some a \<Rightarrow> plain_assignee a"
      and "word_gid g"
  shows "leads TAIL_RX (due_part dopt @ assignee_part aopt @ id_part g, c)
           ([], (with_cap 6 aopt (with_cap 5 dopt c))(7 \<mapsto> g))"
proof (cases dopt)
  case None
  have "\<not> prefix CALENDAR (dropWhile is_space (assignee_part aopt @ id_part g))"
    by (cases aopt) (simp_all add: assignee_part_def id_part_def js_def BUST_def CALENDAR_def is_space_def)
  then have "run DUE_RX (assignee_part aopt @ id_part g, c) = []" by (rule due_fails)
  then show ?thesis
    using assignee_opt_leads [OF assms(2,3), of c]
    unfolding TAIL_RX_def seqs.simps
    by (simp only: None due_part_def with_cap_def option.case append_Nil leads_opt_skip)
next
  case (Some d)
  have "run DUE_RX (js '' '' @ CALENDAR @ js '' '' @ d @ assignee_part aopt @ id_part g, c) =
          [(assignee_part aopt @ id_part g, c(5 \<mapsto> d))]"
    using assms(1) Some by (intro due_run) simp
  then have "leads (Seq DUE_RX (Seq (OptG ASSIGNEE_RX)
                 (Seq (OptG (Seq (StarG is_space) (COMMENT_RX 7))) (Seq (StarG is_space) Eol))))
           (js '' '' @ CALENDAR @ js '' '' @ d @ assignee_part aopt @ id_part g, c)
           ([], (with_cap 6 aopt (c(5 \<mapsto> d)))(7 \<mapsto> g))"
    using assignee_opt_leads [OF assms(2,3), of "c(5 \<mapsto> d)"] by (rule leads_single)
  then show ?thesis
    unfolding TAIL_RX_def seqs.simps
    by (simp only: Some due_part_def with_cap_def option.case append_assoc leads_opt_seq)
qed

lemma suffix_starts_with_space:
  "due_part dopt @ assignee_part aopt @ id_part g \<noteq> [] \<and>
   hd (due_part dopt @ assignee_part aopt @ id_part g) = 0x20"
  by (cases dopt; cases aopt) (simp_all add: due_part_def assignee_part_def id_part_def js_def)

lemma title_leads:
  assumes "plain_title n"
      and "case dopt of None \<Rightarrow> True | Some d \<Rightarrow> is_date d"
      and "case aopt of None \<Rightarrow> True | Some a \<Rightarrow> plain_assignee a"
      and "word_gid g"
  shows "leads (Seq (Grp 4 (PlusL is_dot)) TAIL_RX)
           (n @ due_part dopt @ assignee_part aopt @ id_part g, c)
           ([], (with_cap 6 aopt (with_cap 5 dopt (c(4 \<mapsto> n))))(7 \<mapsto> g))"
proof -
  let ?suf = "due_part dopt @ assignee_part aopt @ id_part g"
  have n: "n \<noteq> []" "\<forall>x \<in> set n. is_dot x"
    using assms(1) by (simp_all add: plain_title_def trimmed_def list_all_iff)
  have inner: "\<forall>k. 0 < k \<and> k < length n \<longrightarrow> (\<forall>c. run TAIL_RX (drop k n @ ?suf, c) = [])"
    using title_inner_fails [OF assms(1)] suffix_starts_with_space [of dopt aopt g] by blast
  obtain rs where "run TAIL_RX (?suf, c(4 \<mapsto> n)) =
      ([], (with_cap 6 aopt (with_cap 5 dopt (c(4 \<mapsto> n))))(7 \<mapsto> g)) # rs"
    using leadsD [OF tail_leads [OF assms(2,3,4), of "c(4 \<mapsto> n)"]] by blast
  from grp_lazy_first [OF n inner this]
  show ?thesis by (auto intro: leadsI)
qed

lemma head_run:
  assumes "is_mark m"
  shows "run (Seq (Grp 1 (Seq (StarG is_space) (Lit (js ''- [''))))
               (Seq (Grp 2 (Cls is_mark)) (Seq (Grp 3 (Lit (js ''] ''))) T)))
           (js ''- ['' @ [m] @ js ''] '' @ s, c) =
         run T (s, c(1 \<mapsto> js ''- ['', 2 \<mapsto> [m], 3 \<mapsto> js ''] ''))"
  using assms by (simp add: js_def is_space_def)

lemma dropWhile_hd: "s \<noteq> [] \<Longrightarrow> \<not> p (hd s) \<Longrightarrow> dropWhile p s = s"
  by (cases s) auto

lemma trim_trimmed:
  assumes "trimmed s"
  shows "trim s = s"
proof -
  have s: "s \<noteq> []" "\<not> is_space (hd s)" "\<not> is_space (last s)"
    using assms by (simp_all add: trimmed_def)
  have 1: "dropWhile is_space s = s" using s(1,2) by (rule dropWhile_hd)
  have "rev s \<noteq> []" "\<not> is_space (hd (rev s))" using s by (simp_all add: hd_rev)
  then have 2: "dropWhile is_space (rev s) = rev s" by (rule dropWhile_hd)
  show ?thesis by (simp add: trim_def 1 2)
qed

lemma format_shape:
  "formatTaskLine t sd sa =
     js ''- ['' @ [if t_completed t then 0x78 else 0x20] @ js ''] '' @ t_name t @
     due_part (if sd then or_null (t_due_on t) else None) @
     assignee_part (if sa then or_null (map_option r_name (t_assignee t)) else None) @
     id_part (t_gid t)"
  by (simp add: formatTaskLine_def Let_def due_part_def assignee_part_def id_part_def js_def
        split: option.splits)

lemma is_date_nonempty: "is_date d \<Longrightarrow> d \<noteq> []"
  by (auto elim!: is_date.elims(2))

lemma codec_safe_due: "codec_safe t \<Longrightarrow> or_null (t_due_on t) = t_due_on t"
  by (auto simp: codec_safe_def or_null_def is_date_nonempty split: option.splits)

lemma codec_safe_assignee:
  "codec_safe t \<Longrightarrow> or_null (map_option r_name (t_assignee t)) = map_option r_name (t_assignee t)"
  by (auto simp: codec_safe_def or_null_def plain_assignee_def trimmed_def split: option.splits)

lemma task_line_leads:
  assumes "codec_safe t"
  shows "leads TASK_LINE_REGEX (formatTaskLine t sd sa, \<lambda>_. None)
           ([], (with_cap 6 (if sa then map_option r_name (t_assignee t) else None)
                  (with_cap 5 (if sd then t_due_on t else None)
                     ((\<lambda>_. None)(1 \<mapsto> js ''- ['', 2 \<mapsto> [if t_completed t then 0x78 else 0x20],
                                  3 \<mapsto> js ''] '', 4 \<mapsto> t_name t))))
                (7 \<mapsto> t_gid t))"
proof -
  let ?dopt = "if sd then t_due_on t else None"
  let ?aopt = "if sa then map_option r_name (t_assignee t) else None"
  have n: "plain_title (t_name t)" and g: "word_gid (t_gid t)"
    using assms by (simp_all add: codec_safe_def)
  have d: "case ?dopt of None \<Rightarrow> True | Some d \<Rightarrow> is_date d"
    using assms by (simp add: codec_safe_def split: option.splits)
  have a: "case ?aopt of None \<Rightarrow> True | Some a \<Rightarrow> plain_assignee a"
    using assms by (auto simp: codec_safe_def split: option.splits)
  have m: "is_mark (if t_completed t then 0x78 else 0x20)" by (simp add: is_mark_def)
  have shape: "formatTaskLine t sd sa =
     js ''- ['' @ [if t_completed t then 0x78 else 0x20] @ js ''] '' @
     (t_name t @ due_part ?dopt @ assignee_part ?aopt @ id_part (t_gid t))"
    by (simp only: format_shape codec_safe_due [OF assms] codec_safe_assignee [OF assms])
  show ?thesis
    unfolding TASK_LINE_REGEX_def seqs.simps leads_def shape head_run [OF m]
    using title_leads [OF n d a g] unfolding leads_def .
qed

lemma parse_format:
  assumes "codec_safe t"
  shows "parseTaskLine (formatTaskLine t sd sa) i =
           Some \<lparr> p_line = formatTaskLine t sd sa,
                  p_lineNumber = i,
                  p_completed = t_completed t,
                  p_name = t_name t,
                  p_asanaGid = Some (t_gid t),
                  p_dueDate = (if sd then t_due_on t else None),
                  p_assignee = (if sa then map_option r_name (t_assignee t) else None) \<rparr>"
proof -
  have tr: "trim (t_name t) = t_name t"
    using assms by (intro trim_trimmed) (simp add: codec_safe_def plain_title_def)
  have g: "t_gid t \<noteq> []" using assms by (simp add: codec_safe_def word_gid_def)
  have du: "or_null (if sd then t_due_on t else None) = (if sd then t_due_on t else None)"
    using codec_safe_due [OF assms] by (simp add: or_null_def)
  have asg: "or_null (map_option trim (if sa then map_option r_name (t_assignee t) else None)) =
             (if sa then map_option r_name (t_assignee t) else None)"
  proof (cases "t_assignee t")
    case None
    then show ?thesis by (simp add: or_null_def)
  next
    case (Some r)
    then have "trimmed (r_name r)" using assms by (simp add: codec_safe_def plain_assignee_def)
    then show ?thesis using Some by (simp add: or_null_def trim_trimmed trimmed_def)
  qed
  have mk: "(Some [if t_completed t then 0x78 else (0x20::nat)] = Some (js ''x'') \<or>
             Some [if t_completed t then 0x78 else (0x20::nat)] = Some (js ''X'')) = t_completed t"
    by (simp add: js_def)
  show ?thesis
    unfolding parseTaskLine_def exec_leads [OF task_line_leads [OF assms]] option.case
    using tr g du asg mk
    by (cases "sd"; cases "sa"; cases "t_due_on t"; cases "t_assignee t")
       (simp_all add: with_cap_def or_null_def)
qed

lemma run_seq_nonempty:
  assumes "x \<in> set (run a st)" "run b x \<noteq> []"
  shows "run (Seq a b) st \<noteq> []"
  using assms by auto

lemma plus_lazy_all:
  assumes "u \<noteq> []" "\<forall>x \<in> set u. p x"
  shows "v \<in> set (plus_lazy p (u @ v))"
  using assms
proof (induction u)
  case Nil
  then show ?case by simp
next
  case (Cons x u)
  then show ?case by (cases "u = []") auto
qed

lemma tail_accepts_spaces:
  assumes "\<forall>x \<in> set s. is_space x"
  shows "run TAIL_RX (s, c) \<noteq> []"
proof -
  let ?E = "Seq (StarG is_space) Eol"
  have dw: "dropWhile is_space s = []" using assms by (simp add: dropWhile_eq_Nil_conv)
  have e: "run ?E (s, c) \<noteq> []" using dw by (simp only: run_star_eol) simp
  have m: "(s, c) \<in> set (run (OptG a) (s, c))" for a by simp
  have 3: "run (Seq (OptG (Seq (StarG is_space) (COMMENT_RX 7))) ?E) (s, c) \<noteq> []"
    by (rule run_seq_nonempty [OF m e])
  have 2: "run (Seq (OptG ASSIGNEE_RX)
                 (Seq (OptG (Seq (StarG is_space) (COMMENT_RX 7))) ?E)) (s, c) \<noteq> []"
    by (rule run_seq_nonempty [OF m 3])
  show ?thesis
    unfolding TAIL_RX_def seqs.simps by (rule run_seq_nonempty [OF m 2])
qed

lemma head_run_ws:
  assumes "\<forall>x \<in> set ws. is_space x" "is_mark m"
  shows "run (Seq (Grp 1 (Seq (StarG is_space) (Lit (js ''- [''))))
               (Seq (Grp 2 (Cls is_mark)) (Seq (Grp 3 (Lit (js ''] ''))) T)))
           (ws @ js ''- ['' @ [m] @ js ''] '' @ s, c) =
         run T (s, c(1 \<mapsto> ws @ js ''- ['', 2 \<mapsto> [m], 3 \<mapsto> js ''] ''))"
proof -
  have dw: "dropWhile is_space (ws @ x) = dropWhile is_space x" for x
    using assms(1) by (simp add: dropWhile_append2)
  have 1: "run (Seq (StarG is_space) (Lit (js ''- [''))) (ws @ js ''- ['' @ [m] @ js ''] '' @ s, c) =
           [([m] @ js ''] '' @ s, c)]"
    by (subst run_star_lit) (simp_all add: dw js_def is_space_def)
  have g1: "run (Grp 1 (Seq (StarG is_space) (Lit (js ''- [''))))
              (ws @ js ''- ['' @ [m] @ js ''] '' @ s, c) =
            [([m] @ js ''] '' @ s, c(1 \<mapsto> ws @ js ''- [''))]"
    by (simp only: run.simps(8) 1) (simp add: js_def)
  show ?thesis
    using assms(2) by (simp only: run.simps(6) [of "Grp 1 _"] g1) (simp add: js_def)
qed

lemma checkbox_line_parses:
  assumes "\<forall>x \<in> set ws. is_space x" "is_mark m" "body \<noteq> []" "\<forall>x \<in> set body. is_dot x"
      and "\<forall>x \<in> set trail. is_space x"
  shows "parseTaskLine (ws @ js ''- ['' @ [m] @ js ''] '' @ body @ trail) i \<noteq> None"
proof -
  let ?c = "(\<lambda>_. None)(1 \<mapsto> ws @ js ''- ['', 2 \<mapsto> [m], 3 \<mapsto> js ''] '')"
  have "(trail, ?c(4 \<mapsto> body)) \<in> set (run (Grp 4 (PlusL is_dot)) (body @ trail, ?c))"
    using plus_lazy_all [OF assms(3,4), of trail] by (force simp: image_iff)
  then have "run (Seq (Grp 4 (PlusL is_dot)) TAIL_RX) (body @ trail, ?c) \<noteq> []"
    using tail_accepts_spaces [OF assms(5)] by (rule run_seq_nonempty)
  then have "run TASK_LINE_REGEX (ws @ js ''- ['' @ [m] @ js ''] '' @ body @ trail, \<lambda>_. None) \<noteq> []"
    unfolding TASK_LINE_REGEX_def seqs.simps head_run_ws [OF assms(1,2)] .
  then show ?thesis
    by (auto simp: parseTaskLine_def rx_exec_anchored_def split: list.splits)
qed

lemma checkbox_line_shape:
  assumes "\<forall>x \<in> set ws. is_space x"
  shows "ws @ js ''- ['' @ r \<noteq> FENCE \<and> \<not> startsWith (ws @ js ''- ['' @ r) H2 \<and>
         \<not> startsWith (ws @ js ''- ['' @ r) (js ''asana_last_sync:'')"
proof (cases ws)
  case Nil
  then show ?thesis by (simp add: FENCE_def H2_def startsWith_def js_def)
next
  case (Cons x xs)
  then have "is_space x" using assms by simp
  then have "x \<noteq> 0x2D" "x \<noteq> 0x23" "x \<noteq> 0x61" by (auto simp: is_space_def)
  then show ?thesis using Cons by (simp add: FENCE_def H2_def startsWith_def js_def)
qed

section \<open>The codec\<close>

text \<open>
  Claim C2, as stated, fails for a task whose title holds the calendar sign and a date:
  the formatted line parses with the title cut short and with a due date that the task
  does not have.  (It also fails, by the options' design, whenever a display option is
  off and the field is present: the marker is left out and the parsed field is empty.)
\<close>

theorem roundtrip_fails_on_marked_title:
  "parseTaskLine (formatTaskLine task_marked True True) 0 =
     Some \<lparr> p_line = formatTaskLine task_marked True True, p_lineNumber = 0,
            p_completed = False, p_name = js ''Pay'', p_asanaGid = Some (js ''1''),
            p_dueDate = Some (js ''2024-01-01''), p_assignee = None \<rparr> \<and>
   t_name task_marked \<noteq> js ''Pay'' \<and> t_due_on task_marked = None"
  by (simp add: task_marked_def formatTaskLine_def parseTaskLine_def rx_defs)

text \<open>
  Claim C2, amended.  Let the task's title and assignee name be plain (not empty,
  trimmed, on one line, the title without the calendar sign, the bust sign and
  \<^verbatim>\<open><!--\<close>, the assignee name without \<^verbatim>\<open><!--\<close>), its due date, if any, of the form
  \<^verbatim>\<open>YYYY-MM-DD\<close>, and its identifier a non-empty word.  Then parsing the line that
  \<open>formatTaskLine\<close> produces yields the task's title, completion flag and identifier,
  its due date when due dates are shown and none otherwise, and its assignee's name when
  assignees are shown and none otherwise.
\<close>

theorem format_parse_roundtrip:
  assumes "codec_safe t"
  shows "parseTaskLine (formatTaskLine t sd sa) i =
           Some \<lparr> p_line = formatTaskLine t sd sa,
                  p_lineNumber = i,
                  p_completed = t_completed t,
                  p_name = t_name t,
                  p_asanaGid = Some (t_gid t),
                  p_dueDate = (if sd then t_due_on t else None),
                  p_assignee = (if sa then map_option r_name (t_assignee t) else None) \<rparr>"
  using assms by (rule parse_format)

lemma codec_safe_task_full: "codec_safe task_full"
  by (simp add: codec_safe_def task_full_def plain_title_def plain_assignee_def word_gid_def
        trimmed_def sublist_code CALENDAR_def BUST_def js_def is_space_def is_dot_def
        is_line_terminator_def is_digit_def is_word_def)

theorem format_parse_roundtrip_witness:
  "parseTaskLine (formatTaskLine task_full True False) 3 =
     Some \<lparr> p_line = formatTaskLine task_full True False, p_lineNumber = 3,
            p_completed = True, p_name = js ''Design'', p_asanaGid = Some (js ''111''),
            p_dueDate = Some (js ''2025-01-20''), p_assignee = None \<rparr>"
  using format_parse_roundtrip [OF codec_safe_task_full, of True False 3]
  by (simp add: task_full_def)

text \<open>
  Claim C6, as stated, fails on a checkbox line with the assignee before the due date.
  The title pattern is lazy but not bounded, and the assignee pattern takes any text: the
  line parses as a task whose assignee text holds the calendar sign and the date.  With
  task 1 on the remote list, reconciliation replaces the line by the remote task's line.
\<close>

lemma parse_LINE_SWAPPED:
  "parseTaskLine LINE_SWAPPED i =
     Some \<lparr> p_line = LINE_SWAPPED, p_lineNumber = i, p_completed = False, p_name = js ''T'',
            p_asanaGid = Some (js ''1''), p_dueDate = None,
            p_assignee = Some (js ''B '' @ CALENDAR @ js '' 2024-01-15'') \<rparr>"
  unfolding LINE_SWAPPED_def by (simp add: parseTaskLine_def rx_defs)

lemma gid_LINE_SWAPPED: "gid_of_line LINE_SWAPPED = Some (js ''1'')"
  unfolding LINE_SWAPPED_def by (simp add: gid_of_line_def ASANA_GID_REGEX_def rx_defs)

lemma plain_LINE_SWAPPED:
  "0x0A \<notin> set LINE_SWAPPED" "LINE_SWAPPED \<noteq> FENCE" "\<not> startsWith LINE_SWAPPED H2"
  "LINE_SWAPPED \<noteq> LINE1"
  by (simp_all add: LINE_SWAPPED_def LINE1_def FENCE_def H2_def startsWith_def js_def BUST_def
        CALENDAR_def)

theorem swapped_markers_parse:
  "parseTaskLine LINE_SWAPPED 0 =
     Some \<lparr> p_line = LINE_SWAPPED, p_lineNumber = 0, p_completed = False, p_name = js ''T'',
            p_asanaGid = Some (js ''1''), p_dueDate = None,
            p_assignee = Some (js ''B '' @ CALENDAR @ js '' 2024-01-15'') \<rparr> \<and>
   entries (snd (syncProject (cfg True) SP
                   (remote_world (vault1 LINE_SWAPPED) [task1 False] (js ''t0''))))
     (notePath SP) = Some (TFile LINE1) \<and>
   LINE_SWAPPED \<noteq> LINE1"
proof -
  let ?w = "remote_world (vault1 LINE_SWAPPED) [task1 False] (js ''t0'')"
  have e: "entries ?w (notePath SP) = Some (TFile LINE_SWAPPED)" by (rule entries_vault1)
  have f: "fetchTasks SP ?w = Inr [task1 False]" by (rule fetch_remote_world)
  have sl: "split_nl LINE_SWAPPED = [LINE_SWAPPED]"
    by (simp add: split_nl_no_nl plain_LINE_SWAPPED)
  have lm: "local_map LINE_SWAPPED =
              [(js ''1'', \<lparr> p_line = LINE_SWAPPED, p_lineNumber = 0, p_completed = False,
                             p_name = js ''T'', p_asanaGid = Some (js ''1''), p_dueDate = None,
                             p_assignee = Some (js ''B '' @ CALENDAR @ js '' 2024-01-15'') \<rparr>)]"
    by (simp add: local_map_def tasks_one_line sl plain_LINE_SWAPPED parse_LINE_SWAPPED
          existingTaskMap_def or_null_def js_def)
  have rf: "refreshed ?w [task1 False] LINE_SWAPPED = [task1 False]"
    by (simp add: refreshed_def sent_def lm pushes_def conflict_def taskMap_single task1_fields
          apply_updates_def)
  have wk: "walked (cfg True) ?w [task1 False] LINE_SWAPPED =
              rewrite0\<lparr> newLines := [LINE1], seenGids := {js ''1''}, nUpdated := 1 \<rparr>"
    by (simp add: walked_def rf sl walk_one_line plain_LINE_SWAPPED gid_LINE_SWAPPED)
  have fl: "final_lines (cfg True) SP ?w [task1 False] LINE_SWAPPED = [LINE1]"
    by (simp add: final_lines_def wk rf newTasksOf_def task1_fields appendNewTasks_def
          rewrite0_def)
  show ?thesis
    using sync_note [OF e f, of "cfg True"]
    by (simp add: fl parse_LINE_SWAPPED plain_LINE_SWAPPED)
qed

text \<open>
  Claim C6, amended.  Every line that is white space, a checkbox, a space and at least
  one more character on the same line (before trailing white space) parses as a task,
  whatever the order of the markers on it: a marker out of the fixed order is not read as
  a field and stays in the title or the assignee text.  Reconciliation does not keep
  such a line as opaque text on that ground: outside the frontmatter block the walk
  writes it back unchanged when it reads no identifier off the line or one that the
  remote map does not hold, and otherwise writes the remote task's line, or nothing when
  the task is completed and completed tasks are hidden.
\<close>

theorem checkbox_lines_are_tasks:
  assumes "\<forall>x \<in> set ws. is_space x" "is_mark m" "body \<noteq> []" "\<forall>x \<in> set body. is_dot x"
      and "\<forall>x \<in> set trail. is_space x"
      and "i < length lns"
      and "lns ! i = ws @ js ''- ['' @ [m] @ js ''] '' @ body @ trail"
  shows "parseTaskLine (lns ! i) i \<noteq> None \<and>
         written_for S mp now lns i =
           (if frontmatter_open (take i lns) then [lns ! i]
            else case gid_of_line (lns ! i) of
                   None \<Rightarrow> [lns ! i]
                 | Some g \<Rightarrow>
                     (case mp g of
                        None \<Rightarrow> [lns ! i]
                      | Some t \<Rightarrow>
                          if \<not> showCompletedTasks S \<and> t_completed t then []
                          else [formatTaskLine t (showDueDates S) (showAssignees S)]))"
proof
  show "parseTaskLine (lns ! i) i \<noteq> None"
    unfolding assms(7) using assms(1-5) by (rule checkbox_line_parses)
next
  have sh: "lns ! i \<noteq> FENCE" "\<not> startsWith (lns ! i) H2"
    "\<not> startsWith (lns ! i) (js ''asana_last_sync:'')"
    using checkbox_line_shape [OF assms(1), of "[m] @ js ''] '' @ body @ trail"]
    by (simp_all add: assms(7))
  show "written_for S mp now lns i =
           (if frontmatter_open (take i lns) then [lns ! i]
            else case gid_of_line (lns ! i) of
                   None \<Rightarrow> [lns ! i]
                 | Some g \<Rightarrow>
                     (case mp g of
                        None \<Rightarrow> [lns ! i]
                      | Some t \<Rightarrow>
                          if \<not> showCompletedTasks S \<and> t_completed t then []
                          else [formatTaskLine t (showDueDates S) (showAssignees S)]))"
    using sh
    by (simp add: written_for_step [OF assms(6)] rewriteLine_def inFrontmatter_walk
          split: option.splits)
qed

theorem checkbox_lines_are_tasks_witness:
  "parseTaskLine ([LINE_SWAPPED] ! 0) 0 \<noteq> None \<and>
   written_for (cfg True) (taskMap [task1 False]) (js ''t0'') [LINE_SWAPPED] 0 = [LINE1]"
proof -
  have sp: "\<forall>x \<in> set []. is_space x" by simp
  have mk: "is_mark 0x20" by (simp add: is_mark_def)
  let ?body = "js ''T '' @ BUST @ js '' B '' @ CALENDAR @ js '' 2024-01-15 <!-- asana:1 -->''"
  have b: "?body \<noteq> []" "\<forall>x \<in> set ?body. is_dot x"
    by (simp_all add: js_def BUST_def CALENDAR_def is_dot_def is_line_terminator_def)
  have l: "[LINE_SWAPPED] ! 0 = [] @ js ''- ['' @ [0x20] @ js ''] '' @ ?body @ []"
    by (simp add: LINE_SWAPPED_def js_def)
  have i: "0 < length [LINE_SWAPPED]" by simp
  from checkbox_lines_are_tasks [OF sp mk b sp i l, of "cfg True" "taskMap [task1 False]" "js ''t0''"]
  show ?thesis
    by (simp add: frontmatter_open_def gid_LINE_SWAPPED taskMap_single task1_fields cfg_fields
          format_task1)
qed

section \<open>Conflict arbitration\<close>

text \<open>
  Claim C3, as stated, fails with completed tasks hidden, which is the default setting:
  the note holds the checked line of task 1, the remote task is open.  The pass sends the
  one update and counts it, and then drops the line, because the refreshed task is
  completed: the note is left empty and no line shows the task as completed.
\<close>

theorem pushed_line_hidden:
  "fst (syncProject (cfg False) SP (remote_world (vault1 LINE1X) [task1 False] (js ''t0''))) =
     Inr \<lparr> added = 0, updated = 0, completionChanges = 1 \<rparr> \<and>
   issued (remote_world (vault1 LINE1X) [task1 False] (js ''t0''))
     (snd (syncProject (cfg False) SP (remote_world (vault1 LINE1X) [task1 False] (js ''t0'')))) =
     [(js ''1'', True)] \<and>
   entries (snd (syncProject (cfg False) SP
                   (remote_world (vault1 LINE1X) [task1 False] (js ''t0''))))
     (notePath SP) = Some (TFile [])"
proof -
  let ?w = "remote_world (vault1 LINE1X) [task1 False] (js ''t0'')"
  have e: "entries ?w (notePath SP) = Some (TFile LINE1X)" by (rule entries_vault1)
  have f: "fetchTasks SP ?w = Inr [task1 False]" by (rule fetch_remote_world)
  have wk: "walked (cfg False) ?w [task1 False] LINE1X = rewrite0\<lparr> seenGids := {js ''1''} \<rparr>"
    by (simp add: walked_def refreshed_one_line split_lines walk_one_line lines_plain gid_LINE1X)
  have fl: "final_lines (cfg False) SP ?w [task1 False] LINE1X = []"
    by (simp add: final_lines_def wk refreshed_one_line newTasksOf_def task1_fields
          appendNewTasks_def rewrite0_def)
  show ?thesis
    using sync_stats [OF e f, of "cfg False"] sync_issued [OF e f, of "cfg False"]
      sync_note [OF e f, of "cfg False"]
    by (simp add: wk fl refreshed_one_line sent_one_line accepted_remote_world newTasksOf_def
          task1_fields rewrite0_def)
qed

text \<open>
  Claim C3, amended.  Let the note's task map hold an identifier with the checkbox
  checked, let the remote task be open and let the service accept updates for it.  Then
  the pass sends exactly one update for the identifier, setting it to completed, and
  \<^verbatim>\<open>completionChanges\<close> is the number of accepted updates sent, this one among them.  The
  refreshed remote task is completed; for a body line that carries the identifier the
  walk writes the task's line with the checked box when completed tasks are shown, and
  writes nothing when they are hidden.
\<close>

theorem local_completion_wins:
  assumes "entries w (notePath sp) = Some (TFile content)"
      and "fetchTasks sp w = Inr ts"
      and "map_of (local_map content) g = Some lt"
      and "p_completed lt"
      and "taskMap ts g = Some t"
      and "\<not> t_completed t"
      and "g \<notin> rejects w"
      and "i < length (split_nl content)"
      and "\<not> frontmatter_open (take i (split_nl content))"
      and "\<not> startsWith (split_nl content ! i) H2"
      and "gid_of_line (split_nl content ! i) = Some g"
  shows "filter (\<lambda>u. fst u = g) (issued w (snd (syncProject S sp w))) = [(g, True)] \<and>
         accepted w (g, True) \<and>
         (\<exists>st. fst (syncProject S sp w) = Inr st \<and>
               completionChanges st =
                 length (filter (accepted w) (issued w (snd (syncProject S sp w))))) \<and>
         (\<exists>ts'. fetchTasks sp (snd (syncProject S sp w)) = Inr ts' \<and>
                taskMap ts' g = Some (t\<lparr> t_completed := True \<rparr>) \<and>
                written_for S (taskMap ts') (clock w) (split_nl content) i =
                  (if showCompletedTasks S
                   then [formatTaskLine (t\<lparr> t_completed := True \<rparr>)
                           (showDueDates S) (showAssignees S)]
                   else [])) \<and>
         prefix (js ''- [x] '')
           (formatTaskLine (t\<lparr> t_completed := True \<rparr>) (showDueDates S) (showAssignees S))"
proof -
  have cf: "conflict (taskMap ts) (g, lt)"
    using assms(4,5,6) by (simp add: conflict_def)
  have one: "filter (\<lambda>u. fst u = g) (sent ts content) = [(g, True)]"
    using assms(3,4) cf by (simp add: sent_for_gid)
  have acc: "accepted w (g, True)"
    using fetchTasks_online [OF assms(2)] assms(7) by (simp add: accepted_def)
  have gt: "t_gid t = g" using taskMap_Some [OF assms(5)] by simp
  have "filter (\<lambda>u. fst u = g) (filter (accepted w) (sent ts content)) = [(g, True)]"
    using acc by (simp only: filter_accepted_gid one filter.simps if_True)
  then have upd: "apply_updates (filter (accepted w) (sent ts content)) t = t\<lparr> t_completed := True \<rparr>"
    using apply_updates_gid [OF gt, of "filter (accepted w) (sent ts content)"] by simp
  have rm: "taskMap (refreshed w ts content) g = Some (t\<lparr> t_completed := True \<rparr>)"
    using assms(5) upd by (simp add: taskMap_refreshed)
  have wr: "written_for S (taskMap (refreshed w ts content)) (clock w) (split_nl content) i =
              (if showCompletedTasks S
               then [formatTaskLine (t\<lparr> t_completed := True \<rparr>) (showDueDates S) (showAssignees S)]
               else [])"
    using written_for_body [OF assms(8,9,10,11)] rm by simp
  have px: "prefix (js ''- [x] '')
           (formatTaskLine (t\<lparr> t_completed := True \<rparr>) (showDueDates S) (showAssignees S))"
    by (simp add: formatTaskLine_def Let_def js_def split: option.splits)
  show ?thesis
    using one acc rm wr px sync_issued [OF assms(1,2)] sync_refetch [OF assms(1,2)]
      sync_stats [OF assms(1,2)]
    by simp
qed

theorem local_completion_wins_witness:
  "filter (\<lambda>u. fst u = js ''1'')
     (issued (remote_world (vault1 LINE1X) [task1 False] (js ''t0''))
        (snd (syncProject (cfg True) SP (remote_world (vault1 LINE1X) [task1 False] (js ''t0''))))) =
     [(js ''1'', True)] \<and>
   (\<exists>ts'. fetchTasks SP (snd (syncProject (cfg True) SP
                                  (remote_world (vault1 LINE1X) [task1 False] (js ''t0'')))) =
             Inr ts' \<and>
          taskMap ts' (js ''1'') = Some (task1 True) \<and>
          written_for (cfg True) (taskMap ts') (js ''t0'') [LINE1X] 0 = [LINE1X])"
proof -
  let ?w = "remote_world (vault1 LINE1X) [task1 False] (js ''t0'')"
  have e: "entries ?w (notePath SP) = Some (TFile LINE1X)" by (rule entries_vault1)
  have f: "fetchTasks SP ?w = Inr [task1 False]" by (rule fetch_remote_world)
  have m: "map_of (local_map LINE1X) (js ''1'') =
             Some \<lparr> p_line = LINE1X, p_lineNumber = 0, p_completed = True, p_name = js ''T'',
                    p_asanaGid = Some (js ''1''), p_dueDate = None, p_assignee = None \<rparr>"
    by (simp add: local_map_LINE1X)
  have t: "taskMap [task1 False] (js ''1'') = Some (task1 False)"
    by (simp add: taskMap_single task1_fields)
  have r: "js ''1'' \<notin> rejects ?w" by (simp add: remote_world_def)
  have i: "0 < length (split_nl LINE1X)" by (simp add: split_lines)
  have o: "\<not> frontmatter_open (take 0 (split_nl LINE1X))" by (simp add: frontmatter_open_def)
  have h: "\<not> startsWith (split_nl LINE1X ! 0) H2" by (simp add: split_lines lines_plain)
  have g: "gid_of_line (split_nl LINE1X ! 0) = Some (js ''1'')" by (simp add: split_lines gid_LINE1X)
  have c: "task1 False\<lparr> t_completed := True \<rparr> = task1 True" by (simp add: task1_def)
  from local_completion_wins [OF e f m _ t _ r i o h g, of "cfg True"]
  show ?thesis
    by (simp add: task1_fields cfg_fields c format_task1 split_lines clock_remote_world)
qed

section \<open>Conservative deletion\<close>

lemma parse_LINE19:
  "parseTaskLine LINE19 i =
     Some \<lparr> p_line = LINE19, p_lineNumber = i, p_completed = False,
            p_name = js ''A <!-- asana:1 -->'', p_asanaGid = Some (js ''9''), p_dueDate = None,
            p_assignee = None \<rparr>"
  unfolding LINE19_def by (simp add: parseTaskLine_def rx_defs)

lemma gid_LINE19: "gid_of_line LINE19 = Some (js ''1'')"
  unfolding LINE19_def by (simp add: gid_of_line_def ASANA_GID_REGEX_def rx_defs)

lemma plain_LINE19: "0x0A \<notin> set LINE19" "LINE19 \<noteq> FENCE" "\<not> startsWith LINE19 H2"
  by (simp_all add: LINE19_def FENCE_def H2_def startsWith_def js_def)

text \<open>
  Claim C4, as stated, fails for a line with two identifier comments.  The line grammar
  reads the identifier of the last comment, which is what the note's task map holds for
  the line; the rewrite walk reads the first one.  With completed tasks hidden, a line
  whose first identifier is that of a completed remote task is dropped, although the
  identifier the line carries for the parser is absent from the refreshed remote map.
\<close>

theorem second_identifier_line_dropped:
  "map_option p_asanaGid (parseTaskLine LINE19 0) = Some (Some (js ''9'')) \<and>
   fetchTasks SP
     (snd (syncProject (cfg False) SP (remote_world (vault1 LINE19) [task1 True] (js ''t0'')))) =
     Inr [task1 True] \<and>
   taskMap [task1 True] (js ''9'') = None \<and>
   entries (snd (syncProject (cfg False) SP
                   (remote_world (vault1 LINE19) [task1 True] (js ''t0''))))
     (notePath SP) = Some (TFile [])"
proof -
  let ?w = "remote_world (vault1 LINE19) [task1 True] (js ''t0'')"
  have e: "entries ?w (notePath SP) = Some (TFile LINE19)" by (rule entries_vault1)
  have f: "fetchTasks SP ?w = Inr [task1 True]" by (rule fetch_remote_world)
  have sp: "split_nl LINE19 = [LINE19]" by (simp add: split_nl_no_nl plain_LINE19)
  have no: "taskMap [task1 True] (js ''9'') = None"
    by (simp add: taskMap_single task1_fields js_def)
  have lm: "local_map LINE19 =
              [(js ''9'', \<lparr> p_line = LINE19, p_lineNumber = 0, p_completed = False,
                   p_name = js ''A <!-- asana:1 -->'', p_asanaGid = Some (js ''9''),
                   p_dueDate = None, p_assignee = None \<rparr>)]"
    by (simp add: local_map_def tasks_one_line sp plain_LINE19 parse_LINE19 existingTaskMap_def
          or_null_def js_def)
  have s: "sent [task1 True] LINE19 = []"
    by (simp add: sent_def pushes_def conflict_def lm no)
  have r: "refreshed ?w [task1 True] LINE19 = [task1 True]"
    by (simp add: refreshed_def s apply_updates_def)
  have wk: "walked (cfg False) ?w [task1 True] LINE19 = rewrite0\<lparr> seenGids := {js ''1''} \<rparr>"
    by (simp add: walked_def r sp walk_one_line plain_LINE19 gid_LINE19)
  have fl: "final_lines (cfg False) SP ?w [task1 True] LINE19 = []"
    by (simp add: final_lines_def wk r newTasksOf_def task1_fields appendNewTasks_def rewrite0_def)
  show ?thesis
    using sync_note [OF e f, of "cfg False"] sync_refetch [OF e f, of "cfg False"]
    by (simp add: fl r no parse_LINE19)
qed

text \<open>
  Claim C4, amended.  Take a line of the note in which the rewrite walk reads an
  identifier, that of the first identifier comment on the line, that no task of the remote
  list has, so that the refreshed task map does not hold it.  After the pass the note still
  has that line, character for character.  (The one line the walk replaces whatever it
  carries is the \<^verbatim>\<open>asana_last_sync:\<close> line inside the frontmatter block, which is the
  pass's own time stamp and not a line of the note's body.)
\<close>

theorem conservative_deletion:
  assumes "entries w (notePath sp) = Some (TFile content)"
      and "fetchTasks sp w = Inr ts"
      and "i < length (split_nl content)"
      and "gid_of_line (split_nl content ! i) = Some g"
      and "g \<notin> t_gid ` set ts"
      and "\<not> (frontmatter_open (take i (split_nl content)) \<and>
              startsWith (split_nl content ! i) (js ''asana_last_sync:''))"
  shows "\<exists>ts' content'.
           fetchTasks sp (snd (syncProject S sp w)) = Inr ts' \<and> taskMap ts' g = None \<and>
           entries (snd (syncProject S sp w)) (notePath sp) = Some (TFile content') \<and>
           split_nl content ! i \<in> set (split_nl content')"
proof -
  have none: "taskMap (refreshed w ts content) g = None"
    using assms(5) by (simp add: taskMap_refreshed taskMap_None)
  have "split_nl content ! i \<in>
          set (written_for S (taskMap (refreshed w ts content)) (clock w) (split_nl content) i)"
    using assms(3,4,6) none by (intro written_for_keep) auto
  then have "split_nl content ! i \<in> set (split_nl (join_nl (final_lines S sp w ts content)))"
    using kept_in_final [OF refl assms(3)] by simp
  then show ?thesis
    using sync_note [OF assms(1,2)] sync_refetch [OF assms(1,2)] none by simp
qed

theorem conservative_deletion_witness:
  "\<exists>ts' content'.
      fetchTasks SP (snd (syncProject (cfg False) SP
                            (remote_world (vault1 LINE9) [task1 False] (js ''t0'')))) = Inr ts' \<and>
      taskMap ts' (js ''9'') = None \<and>
      entries (snd (syncProject (cfg False) SP
                      (remote_world (vault1 LINE9) [task1 False] (js ''t0''))))
        (notePath SP) = Some (TFile content') \<and>
      LINE9 \<in> set (split_nl content')"
proof -
  let ?w = "remote_world (vault1 LINE9) [task1 False] (js ''t0'')"
  have e: "entries ?w (notePath SP) = Some (TFile LINE9)" by (rule entries_vault1)
  have f: "fetchTasks SP ?w = Inr [task1 False]" by (rule fetch_remote_world)
  have i: "0 < length (split_nl LINE9)" by (simp add: split_lines)
  have g: "gid_of_line (split_nl LINE9 ! 0) = Some (js ''9'')" by (simp add: split_lines gid_LINE9)
  have a: "js ''9'' \<notin> t_gid ` set [task1 False]" by (simp add: task1_fields js_def)
  have n: "\<not> (frontmatter_open (take 0 (split_nl LINE9)) \<and>
               startsWith (split_nl LINE9 ! 0) (js ''asana_last_sync:''))"
    by (simp add: frontmatter_open_def)
  from conservative_deletion [OF e f i g a n, of "cfg False"]
  show ?thesis by (simp add: split_lines)
qed

section \<open>Hiding completed tasks\<close>

text \<open>
  Claim C7, as stated, fails for a completed remote task whose line in the note is
  unchecked.  With completed tasks hidden, step 1 first sends the note's flag to the
  remote side (the local value wins), which reopens the task; the refreshed task is open,
  so the walk keeps the line.  The line is not removed and the remote completion state
  has changed.
\<close>

theorem completed_task_reopened:
  "issued (remote_world (vault1 LINE1) [task1 True] (js ''t0''))
     (snd (syncProject (cfg False) SP (remote_world (vault1 LINE1) [task1 True] (js ''t0'')))) =
     [(js ''1'', False)] \<and>
   fetchTasks SP
     (snd (syncProject (cfg False) SP (remote_world (vault1 LINE1) [task1 True] (js ''t0'')))) =
     Inr [task1 False] \<and>
   entries (snd (syncProject (cfg False) SP
                   (remote_world (vault1 LINE1) [task1 True] (js ''t0''))))
     (notePath SP) = Some (TFile LINE1)"
proof -
  let ?w = "remote_world (vault1 LINE1) [task1 True] (js ''t0'')"
  have e: "entries ?w (notePath SP) = Some (TFile LINE1)" by (rule entries_vault1)
  have f: "fetchTasks SP ?w = Inr [task1 True]" by (rule fetch_remote_world)
  have wk: "walked (cfg False) ?w [task1 True] LINE1 =
              rewrite0\<lparr> newLines := [LINE1], seenGids := {js ''1''}, nUpdated := 1 \<rparr>"
    by (simp add: walked_def refreshed_one_line split_lines walk_one_line lines_plain gid_LINE1)
  have fl: "final_lines (cfg False) SP ?w [task1 True] LINE1 = [LINE1]"
    by (simp add: final_lines_def wk refreshed_one_line newTasksOf_def task1_fields
          appendNewTasks_def rewrite0_def)
  show ?thesis
    using sync_issued [OF e f, of "cfg False"] sync_note [OF e f, of "cfg False"]
      sync_refetch [OF e f, of "cfg False"]
    by (simp add: fl refreshed_one_line sent_one_line)
qed

text \<open>
  Claim C7, amended.  With completed tasks hidden, take a body line of the note that
  carries the identifier of a completed remote task, and let the note's task map agree
  with the remote side (it holds the identifier checked, or not at all).  Then the pass
  sends no update for that task, the refreshed remote task is the same completed task,
  and the walk writes nothing for the line: it is gone from the note.  (When the note has
  the task unchecked, step 1 reopens the remote task first and the line stays.)
\<close>

theorem hidden_completed_line_removed:
  assumes "entries w (notePath sp) = Some (TFile content)"
      and "fetchTasks sp w = Inr ts"
      and "\<not> showCompletedTasks S"
      and "i < length (split_nl content)"
      and "\<not> frontmatter_open (take i (split_nl content))"
      and "\<not> startsWith (split_nl content ! i) H2"
      and "gid_of_line (split_nl content ! i) = Some g"
      and "taskMap ts g = Some t"
      and "t_completed t"
      and "\<forall>lt. map_of (local_map content) g = Some lt \<longrightarrow> p_completed lt"
  shows "g \<notin> fst ` set (issued w (snd (syncProject S sp w))) \<and>
         (\<exists>ts'. fetchTasks sp (snd (syncProject S sp w)) = Inr ts' \<and>
                taskMap ts' g = Some t \<and>
                written_for S (taskMap ts') (clock w) (split_nl content) i = [])"
proof -
  have nc: "filter (\<lambda>u. fst u = g) (sent ts content) = []"
    using assms(8,9,10) by (auto simp: sent_for_gid conflict_def split: option.splits)
  then have no: "g \<notin> fst ` set (sent ts content)"
    by (auto simp: filter_empty_conv)
  have gt: "t_gid t = g" using taskMap_Some [OF assms(8)] by simp
  have "filter (\<lambda>u. fst u = g) (filter (accepted w) (sent ts content)) = []"
    by (simp only: filter_accepted_gid nc filter.simps)
  then have same: "apply_updates (filter (accepted w) (sent ts content)) t = t"
    using apply_updates_gid [OF gt, of "filter (accepted w) (sent ts content)"] by simp
  have rm: "taskMap (refreshed w ts content) g = Some t"
    using assms(8) same by (simp add: taskMap_refreshed)
  have wr: "written_for S (taskMap (refreshed w ts content)) (clock w) (split_nl content) i = []"
    using written_for_body [OF assms(4,5,6,7)] rm assms(3,9) by simp
  show ?thesis
    using no rm wr sync_issued [OF assms(1,2)] sync_refetch [OF assms(1,2)] by simp
qed

theorem hidden_completed_line_removed_witness:
  "js ''1'' \<notin> fst ` set
     (issued (remote_world (vault1 LINE1X) [task1 True] (js ''t0''))
        (snd (syncProject (cfg False) SP (remote_world (vault1 LINE1X) [task1 True] (js ''t0''))))) \<and>
   (\<exists>ts'. fetchTasks SP (snd (syncProject (cfg False) SP
                                  (remote_world (vault1 LINE1X) [task1 True] (js ''t0'')))) =
             Inr ts' \<and>
          taskMap ts' (js ''1'') = Some (task1 True) \<and>
          written_for (cfg False) (taskMap ts') (js ''t0'') [LINE1X] 0 = [])"
proof -
  let ?w = "remote_world (vault1 LINE1X) [task1 True] (js ''t0'')"
  have e: "entries ?w (notePath SP) = Some (TFile LINE1X)" by (rule entries_vault1)
  have f: "fetchTasks SP ?w = Inr [task1 True]" by (rule fetch_remote_world)
  have s: "\<not> showCompletedTasks (cfg False)" by (simp add: cfg_fields)
  have i: "0 < length (split_nl LINE1X)" by (simp add: split_lines)
  have o: "\<not> frontmatter_open (take 0 (split_nl LINE1X))" by (simp add: frontmatter_open_def)
  have h: "\<not> startsWith (split_nl LINE1X ! 0) H2" by (simp add: split_lines lines_plain)
  have g: "gid_of_line (split_nl LINE1X ! 0) = Some (js ''1'')" by (simp add: split_lines gid_LINE1X)
  have t: "taskMap [task1 True] (js ''1'') = Some (task1 True)"
    by (simp add: taskMap_single task1_fields)
  have c: "t_completed (task1 True)" by (simp add: task1_fields)
  have l: "\<forall>lt. map_of (local_map LINE1X) (js ''1'') = Some lt \<longrightarrow> p_completed lt"
    by (simp add: local_map_LINE1X)
  from hidden_completed_line_removed [OF e f s i o h g t c l]
  show ?thesis by (simp add: split_lines clock_remote_world)
qed

text \<open>
  Claim C9, as stated, fails on a task line on which the user wrote after the identifier
  comment.  The line parses as a task without identifier, because the pattern of
  \<open>parseTaskLine\<close> wants the comment at the end of the line; the rewrite walk still reads
  the identifier off the line and replaces the line by the remote task's.
\<close>

theorem unlinked_line_rewritten:
  "map_option p_asanaGid (parseTaskLine LINE1_NOTE 0) = Some None \<and>
   entries (snd (syncProject (cfg True) SP
                   (remote_world (vault1 LINE1_NOTE) [task1 False] (js ''t0''))))
      (notePath SP) = Some (TFile LINE1) \<and>
   LINE1_NOTE \<notin> set (split_nl LINE1)"
proof -
  have lm: "local_map LINE1_NOTE = []"
    by (simp add: local_map_def tasks_one_line split_lines lines_plain parse_LINE1_NOTE
          existingTaskMap_def or_null_def)
  have rf: "refreshed w [task1 False] LINE1_NOTE = [task1 False]" for w
    by (simp add: refreshed_def sent_def lm pushes_def apply_updates_def)
  have wk: "walked (cfg True) w [task1 False] LINE1_NOTE =
       \<lparr> newLines = [LINE1], inFrontmatter = False, updatedFrontmatter = False,
         currentSection = UNSECTIONED, seenGids = {js ''1''}, nUpdated = 1 \<rparr>" for w
    by (simp add: walked_def rf walk_def split_lines rewriteLine_def rewrite0_def lines_plain
          gid_LINE1_NOTE taskMap_single task1_fields cfg_fields format_task1)
  have fl: "final_lines (cfg True) SP w [task1 False] LINE1_NOTE = [LINE1]" for w
    by (simp add: final_lines_def wk rf newTasksOf_def task1_fields appendNewTasks_def)
  show ?thesis
    using sync_note [OF entries_vault1 fetch_remote_world, where S = "cfg True"]
    by (simp add: fl parse_LINE1_NOTE split_lines lines_distinct)
qed

text \<open>
  Claim C9, amended.  Take a line of the note that parses as a task, carries no
  identifier, and has no identifier comment anywhere in its text.  After a pass the note
  still has that line, and every completion update the pass sends is for the identifier
  and the checkbox of a task of the note that carries that identifier: none is sent for a
  task without one.
\<close>

theorem unlinked_lines_untouched:
  assumes "entries w (notePath sp) = Some (TFile content)"
      and "fetchTasks sp w = Inr ts"
      and "i < length (split_nl content)"
      and "parseTaskLine (split_nl content ! i) i = Some lt"
      and "p_asanaGid lt = None"
      and "gid_of_line (split_nl content ! i) = None"
  shows "(\<exists>content'. entries (snd (syncProject S sp w)) (notePath sp) = Some (TFile content') \<and>
                     split_nl content ! i \<in> set (split_nl content')) \<and>
         (\<forall>u \<in> set (issued w (snd (syncProject S sp w))).
             \<exists>lt' \<in> set (n_tasks (parseNoteContent content)).
                p_asanaGid lt' = Some (fst u) \<and> p_completed lt' = snd u)"
proof
  have ns: "\<not> startsWith (split_nl content ! i) (js ''asana_last_sync:'')"
  proof
    assume "startsWith (split_nl content ! i) (js ''asana_last_sync:'')"
    then obtain r where "split_nl content ! i = js ''asana_last_sync:'' @ r"
      by (auto simp: startsWith_def prefix_def)
    then have "parseTaskLine (split_nl content ! i) i = None"
      by (simp add: parseTaskLine_def rx_defs)
    then show False using assms(4) by simp
  qed
  have "split_nl content ! i \<in>
          set (written_for S (taskMap (refreshed w ts content)) (clock w) (split_nl content) i)"
    using assms(3,6) ns by (intro written_for_keep) auto
  then have "split_nl content ! i \<in> set (split_nl (join_nl (final_lines S sp w ts content)))"
    using kept_in_final [OF refl assms(3)] by simp
  then show "\<exists>content'. entries (snd (syncProject S sp w)) (notePath sp) = Some (TFile content') \<and>
                     split_nl content ! i \<in> set (split_nl content')"
    using sync_note [OF assms(1,2)] by simp
next
  show "\<forall>u \<in> set (issued w (snd (syncProject S sp w))).
             \<exists>lt' \<in> set (n_tasks (parseNoteContent content)).
                p_asanaGid lt' = Some (fst u) \<and> p_completed lt' = snd u"
  proof
    fix u assume "u \<in> set (issued w (snd (syncProject S sp w)))"
    then have "u \<in> set (pushes (taskMap ts) (local_map content))"
      using sync_issued [OF assms(1,2)] by (simp add: sent_def)
    then obtain t where t: "(fst u, t) \<in> set (local_map content)" "snd u = p_completed t"
      using pushes_source by blast
    from existingTaskMap_mem [OF t(1) [unfolded local_map_def]]
    have "t \<in> set (n_tasks (parseNoteContent content))" "p_asanaGid t = Some (fst u)"
      by (auto dest: or_null_Some)
    then show "\<exists>lt' \<in> set (n_tasks (parseNoteContent content)).
                p_asanaGid lt' = Some (fst u) \<and> p_completed lt' = snd u"
      using t(2) by auto
  qed
qed

theorem unlinked_lines_untouched_witness:
  "\<exists>content'.
      entries (snd (syncProject (cfg False) SP
                      (remote_world (vault1 LINE_MINE) [task1 False] (js ''t0''))))
        (notePath SP) = Some (TFile content') \<and>
      LINE_MINE \<in> set (split_nl content')"
proof -
  let ?w = "remote_world (vault1 LINE_MINE) [task1 False] (js ''t0'')"
  have e: "entries ?w (notePath SP) = Some (TFile LINE_MINE)" by (rule entries_vault1)
  have f: "fetchTasks SP ?w = Inr [task1 False]" by (rule fetch_remote_world)
  have i: "0 < length (split_nl LINE_MINE)" by (simp add: split_lines)
  have p: "parseTaskLine (split_nl LINE_MINE ! 0) 0 =
             Some \<lparr> p_line = LINE_MINE, p_lineNumber = 0, p_completed = False,
                    p_name = js ''Mine'', p_asanaGid = None, p_dueDate = None,
                    p_assignee = None \<rparr>"
    by (simp add: split_lines parse_LINE_MINE)
  have g: "gid_of_line (split_nl LINE_MINE ! 0) = None" by (simp add: split_lines gid_LINE_MINE)
  from unlinked_lines_untouched [OF e f i p _ g, of "cfg False"]
  show ?thesis by (simp add: split_lines)
qed

section \<open>The change detector\<close>








section \<open>Bootstrap\<close>

text \<open>
  Claim C5.  The claim asks the bootstrap pass to report as added the number of fetched
  tasks that pass the hide-completed filter.  With completed tasks hidden and one
  completed task on the remote list, the pass creates the note that
  \<open>generateNoteContent\<close> writes for an empty task list, and still reports one task
  added: the count is the length of the fetch, not of the filtered list.
\<close>

theorem bootstrap_counts_hidden_tasks:
  "fst (syncProject (cfg False) SP (remote_world Map.empty [task1 True] (js ''t0''))) =
     Inr \<lparr> added = 1, updated = 0, completionChanges = 0 \<rparr> \<and>
   entries (snd (syncProject (cfg False) SP (remote_world Map.empty [task1 True] (js ''t0''))))
       (notePath SP) =
     Some (TFile (generateNoteContent (projectName SP) (projectGid SP) False []
                    True True False (js ''t0'')))"
  by (simp add: syncProject_def fetchTasks_def fetchProjectTasks_def or_null_def createNote_def
      remote_world_def SP_def cfg_def task1_def folderPath_def js_def generateNoteContent_def
      groupBySection_def Let_def)

section \<open>The identifier of a formatted line\<close>

lemma exec_anchored_fails: "run r (s, \<lambda>_. None) = [] \<Longrightarrow> rx_exec_anchored r s = None"
  by (simp add: rx_exec_anchored_def)

lemma comment_needs_opening:
  "\<not> prefix (js ''<!--'') s \<Longrightarrow> rx_exec_anchored (COMMENT_RX i) s = None"
  by (rule exec_anchored_fails) (simp add: COMMENT_RX_def)

text \<open>The search skips every index at which the comment does not open.\<close>

lemma search_skips:
  assumes "\<forall>k < length p. \<not> prefix (js ''<!--'') (drop k p @ s)"
  shows "rx_exec (COMMENT_RX i) (p @ s) = rx_exec (COMMENT_RX i) s"
  using assms
proof (induction p)
  case Nil
  then show ?case by simp
next
  case (Cons x p)
  have "\<not> prefix (js ''<!--'') ((x # p) @ s)"
    using Cons.prems by (auto dest: spec [of _ 0])
  then have 1: "rx_exec_anchored (COMMENT_RX i) (x # p @ s) = None"
    using comment_needs_opening by simp
  have "\<forall>k < length p. \<not> prefix (js ''<!--'') (drop k p @ s)"
  proof (intro allI impI)
    fix k assume "k < length p"
    then have "Suc k < length (x # p)" by simp
    then have "\<not> prefix (js ''<!--'') (drop (Suc k) (x # p) @ s)" using Cons.prems by blast
    then show "\<not> prefix (js ''<!--'') (drop k p @ s)" by simp
  qed
  then show ?case using Cons.IH 1 by simp
qed

lemma search_finds:
  assumes "word_gid g"
  shows "rx_exec (COMMENT_RX i) (js ''<!-- asana:'' @ g @ js '' -->'' @ s) = Some ((\<lambda>_. None)(i \<mapsto> g))"
proof -
  have "rx_exec_anchored (COMMENT_RX i) (js ''<!-- asana:'' @ g @ js '' -->'' @ s) =
          Some ((\<lambda>_. None)(i \<mapsto> g))"
    by (rule exec_leads [OF comment_leads [OF assms]])
  moreover have "\<exists>x xs. js ''<!-- asana:'' @ g @ js '' -->'' @ s = x # xs"
    by (simp add: js_def)
  ultimately show ?thesis by auto
qed

lemma no_char_no_sublist: "c \<in> set M \<Longrightarrow> c \<notin> set xs \<Longrightarrow> \<not> sublist M xs"
  using set_mono_sublist by blast

lemma sublist_sep_right:
  assumes "\<not> sublist M xs" "\<not> sublist M ys" "ys \<noteq> []" "hd ys \<notin> set M"
  shows "\<not> sublist M (xs @ ys)"
proof
  assume "sublist M (xs @ ys)"
  then obtain m1 m2 where m: "M = m1 @ m2" "suffix m1 xs" "prefix m2 ys"
    using assms(1,2) by (auto simp: sublist_append)
  show False
  proof (cases "m2 = []")
    case True
    then have "sublist M xs" using m by (auto intro: suffix_imp_sublist)
    then show False using assms(1) by simp
  next
    case False
    then have "hd m2 = hd ys" using m(3) assms(3) by (cases m2; cases ys) auto
    then have "hd ys \<in> set M" using m(1) False by (cases m2) auto
    then show False using assms(4) by simp
  qed
qed

lemma sublist_sep_left:
  assumes "\<not> sublist M xs" "\<not> sublist M ys" "xs \<noteq> []" "last xs \<notin> set M"
  shows "\<not> sublist M (xs @ ys)"
proof
  assume "sublist M (xs @ ys)"
  then obtain m1 m2 where m: "M = m1 @ m2" "suffix m1 xs" "prefix m2 ys"
    using assms(1,2) by (auto simp: sublist_append)
  show False
  proof (cases "m1 = []")
    case True
    then have "sublist M ys" using m by (auto intro: prefix_imp_sublist)
    then show False using assms(2) by simp
  next
    case False
    then have "last m1 = last xs" using m(2) assms(3) by (auto simp: suffix_def)
    then have "last xs \<in> set M" using m(1) False by (metis last_in_set set_append UnI1)
    then show False using assms(4) by simp
  qed
qed

lemma opening_chars: "set (js ''<!--'') = {0x3C, 0x21, 0x2D}"
  by (auto simp: js_def)

lemma no_lt_no_opening: "0x3C \<notin> set xs \<Longrightarrow> \<not> sublist (js ''<!--'') xs"
  by (rule no_char_no_sublist [where c = "0x3C"]) (simp_all add: opening_chars)

lemma is_date_no_lt: "is_date d \<Longrightarrow> 0x3C \<notin> set d"
  by (auto elim!: is_date.elims(2) simp: is_digit_def)




lemma due_part_no_opening:
  assumes "case x of None \<Rightarrow> True | Some d \<Rightarrow> is_date d"
  shows "\<not> sublist (js ''<!--'') (due_part x)"
  using assms
  by (intro no_lt_no_opening)
     (auto simp: due_part_def js_def CALENDAR_def dest: is_date_no_lt split: option.splits)

lemma assignee_part_no_opening:
  assumes "case x of None \<Rightarrow> True | Some a \<Rightarrow> plain_assignee a"
  shows "\<not> sublist (js ''<!--'') (assignee_part x @ js '' '')"
proof (cases x)
  case None
  then show ?thesis by (intro no_lt_no_opening) (simp add: assignee_part_def js_def)
next
  case (Some a)
  then have a: "\<not> sublist (js ''<!--'') a" using assms by (simp add: plain_assignee_def)
  have 1: "\<not> sublist (js ''<!--'') (js '' '' @ BUST @ js '' '')"
    by (intro no_lt_no_opening) (simp add: js_def BUST_def)
  have 2: "\<not> sublist (js ''<!--'') ((js '' '' @ BUST @ js '' '') @ a)"
    by (rule sublist_sep_left [OF 1 a]) (simp_all add: js_def BUST_def)
  have 3: "\<not> sublist (js ''<!--'') (js '' '')"
    by (intro no_lt_no_opening) (simp add: js_def)
  have "\<not> sublist (js ''<!--'') (((js '' '' @ BUST @ js '' '') @ a) @ js '' '')"
    by (rule sublist_sep_right [OF 2 3]) (simp_all add: js_def)
  then show ?thesis using Some by (simp add: assignee_part_def)
qed

lemma starts_space_due: "\<exists>r. due_part x @ assignee_part y @ js '' '' = 0x20 # r"
  by (cases x; cases y) (simp_all add: due_part_def assignee_part_def js_def)

lemma starts_space_assignee: "\<exists>r. assignee_part y @ js '' '' = 0x20 # r"
  by (cases y) (simp_all add: assignee_part_def js_def)

lemma line_head_no_opening:
  assumes n: "plain_title name"
    and d: "case x of None \<Rightarrow> True | Some d \<Rightarrow> is_date d"
    and a: "case y of None \<Rightarrow> True | Some a \<Rightarrow> plain_assignee a"
    and m: "is_mark c"
  shows "\<not> sublist (js ''<!--'') ((js ''- ['' @ [c] @ js ''] '') @ name @ due_part x @ assignee_part y @ js '' '')"
proof -
  let ?M = "js ''<!--''"
  obtain r1 where r1: "assignee_part y @ js '' '' = 0x20 # r1" using starts_space_assignee by blast
  obtain r2 where r2: "due_part x @ assignee_part y @ js '' '' = 0x20 # r2"
    using starts_space_due by blast
  have sp: "0x20 \<notin> set ?M" by (simp add: opening_chars)
  have 1: "\<not> sublist ?M (due_part x @ assignee_part y @ js '' '')"
    by (rule sublist_sep_right [OF due_part_no_opening [OF d] assignee_part_no_opening [OF a]])
       (simp_all add: r1 sp)
  have nm: "\<not> sublist ?M name" using n by (simp add: plain_title_def)
  have 2: "\<not> sublist ?M (name @ due_part x @ assignee_part y @ js '' '')"
    by (rule sublist_sep_right [OF nm 1]) (simp_all add: r2 sp)
  have 3: "\<not> sublist ?M (js ''- ['' @ [c] @ js ''] '')"
    using m by (intro no_lt_no_opening) (auto simp: js_def is_mark_def)
  show ?thesis
    by (rule sublist_sep_left [OF 3 2]) (simp_all add: js_def opening_chars)
qed

lemma tail_not_opening:
  assumes "\<not> sublist M p" "p \<noteq> []" "last p \<notin> set M"
  shows "\<forall>k < length p. \<not> prefix M (drop k p @ s)"
proof (intro allI impI notI)
  fix k assume k: "k < length p" and pre: "prefix M (drop k p @ s)"
  let ?q = "drop k p"
  have q: "?q \<noteq> []" "last ?q = last p" using k by simp_all
  from pre have "prefix M ?q \<or> (\<exists>us. us \<noteq> [] \<and> M = ?q @ us)"
    unfolding prefix_append by (cases "prefix M ?q") (auto simp: prefix_def)
  then show False
  proof
    assume "prefix M ?q"
    then have "sublist M p"
      by (meson prefix_imp_sublist sublist_order.order.trans suffix_drop suffix_imp_sublist)
    then show False using assms(1) by simp
  next
    assume "\<exists>us. us \<noteq> [] \<and> M = ?q @ us"
    then obtain us where "M = ?q @ us" by blast
    moreover have "last ?q \<in> set ?q" using q(1) by (rule last_in_set)
    ultimately have "last ?q \<in> set M" by (metis UnI1 set_append)
    then show False using q(2) assms(3) by simp
  qed
qed

text \<open>The formatted line of a task of the safe class carries the task's identifier.\<close>

lemma gid_of_format:
  assumes "codec_safe t"
  shows "gid_of_line (formatTaskLine t sd sa) = Some (t_gid t)"
proof -
  let ?c = "if t_completed t then 0x78 else (0x20::nat)"
  let ?x = "if sd then t_due_on t else None"
  let ?y = "if sa then map_option r_name (t_assignee t) else None"
  let ?p = "(js ''- ['' @ [?c] @ js ''] '') @ t_name t @ due_part ?x @ assignee_part ?y @ js '' ''"
  let ?s = "js ''<!-- asana:'' @ t_gid t @ js '' -->'' @ []"
  have n: "plain_title (t_name t)" and g: "word_gid (t_gid t)"
    using assms by (simp_all add: codec_safe_def)
  have d: "case ?x of None \<Rightarrow> True | Some d \<Rightarrow> is_date d"
    using assms by (simp add: codec_safe_def split: option.splits)
  have a: "case ?y of None \<Rightarrow> True | Some a \<Rightarrow> plain_assignee a"
    using assms by (auto simp: codec_safe_def split: option.splits)
  have m: "is_mark ?c" by (simp add: is_mark_def)
  have shape: "formatTaskLine t sd sa = ?p @ ?s"
    by (simp add: format_shape codec_safe_due [OF assms] codec_safe_assignee [OF assms]
          id_part_def js_def)
  have "?p \<noteq> []" "last ?p \<notin> set (js ''<!--'')"
    by (simp_all add: js_def)
  from tail_not_opening [OF line_head_no_opening [OF n d a m] this]
  have "rx_exec (COMMENT_RX 1) (?p @ ?s) = rx_exec (COMMENT_RX 1) ?s"
    by (rule search_skips)
  also have "\<dots> = Some ((\<lambda>_. None)(1 \<mapsto> t_gid t))" by (rule search_finds [OF g])
  finally show ?thesis unfolding shape gid_of_line_def ASANA_GID_REGEX_def by simp
qed


lemma format_not_heading: "\<not> startsWith (formatTaskLine t sd sa) H2"
  by (simp add: format_shape startsWith_def H2_def js_def)


section \<open>The walk over a note with a closed frontmatter block\<close>






section \<open>The tasks that a note with a closed frontmatter block holds\<close>









lemma heading_not_task: "startsWith l H2 \<Longrightarrow> parseTaskLine l i = None"
  by (auto simp: startsWith_def H2_def prefix_def parseTaskLine_def rx_defs)



section \<open>Step 3 below a frontmatter block\<close>




























section \<open>A pass over a note that is in step with the remote list\<close>







section \<open>The remote list\<close>





lemma taskMap_distinct:
  assumes "distinct (map t_gid R)" "t \<in> set R"
  shows "taskMap R (t_gid t) = Some t"
  using assms
  by (induction R rule: rev_induct) (auto simp: taskMap_snoc image_iff)

lemma safe_list_mem:
  assumes "safe_list pg R" "t \<in> set R"
  shows "codec_safe t" "taskMap R (t_gid t) = Some t" "0x0A \<notin> set (sectionNameOf pg t)"
  using assms taskMap_distinct [of R t] by (auto simp: safe_list_def list_all_iff)

lemma safe_list_map:
  assumes "safe_list pg R" "taskMap R g = Some t"
  shows "t \<in> set R" "t_gid t = g" "codec_safe t"
  using assms taskMap_Some [of R g t] by (auto simp: safe_list_def list_all_iff)

section \<open>The lines of a note after a pass\<close>

lemma format_line_settled:
  assumes "safe_list pg R" "t \<in> set R" "shown S t"
  shows "settled S (taskMap R) (formatTaskLine t (showDueDates S) (showAssignees S))"
    and "rewritten S (taskMap R) (formatTaskLine t (showDueDates S) (showAssignees S))"
    and "body_gid (formatTaskLine t (showDueDates S) (showAssignees S)) = Some (t_gid t)"
proof -
  let ?l = "formatTaskLine t (showDueDates S) (showAssignees S)"
  note t = safe_list_mem [OF assms(1,2)]
  have g: "gid_of_line ?l = Some (t_gid t)" by (rule gid_of_format [OF t(1)])
  show bg: "body_gid ?l = Some (t_gid t)" by (simp add: body_gid_def format_not_heading g)
  show "rewritten S (taskMap R) ?l" using assms(3) by (simp add: rewritten_def bg t(2) shown_def)
  have "body_out S (taskMap R) ?l = [?l]"
    using assms(3) by (simp add: body_out_def format_not_heading g t(2) shown_def)
  moreover have "\<not> conflict (taskMap R) (t_gid t, lt)"
    if "parseTaskLine ?l 0 = Some lt" for lt
    using that by (auto simp: parse_format [OF t(1)] conflict_def t(2))
  moreover have "or_null (p_asanaGid lt) = Some (t_gid t)"
    if "parseTaskLine ?l 0 = Some lt" for lt
  proof -
    have "t_gid t \<noteq> []" using t(1) by (simp add: codec_safe_def word_gid_def)
    then show ?thesis using that by (auto simp: parse_format [OF t(1)] or_null_def)
  qed
  ultimately show "settled S (taskMap R) ?l"
    by (auto simp: settled_def split: option.splits)
qed

lemma kept_line_settled:
  assumes "line_consistent l"
    and "startsWith l H2 \<or> gid_of_line l = None \<or> (\<exists>g. gid_of_line l = Some g \<and> m g = None)"
  shows "settled S m l" and "\<not> rewritten S m l"
proof -
  show "\<not> rewritten S m l"
    using assms(2) by (auto simp: rewritten_def body_gid_def split: option.splits)
  have 1: "body_out S m l = [l]"
    using assms(2) by (auto simp: body_out_def split: option.splits)
  have 2: "\<not> conflict m (g, lt)"
    if "parseTaskLine l 0 = Some lt" "or_null (p_asanaGid lt) = Some g" for lt g
  proof -
    have "gid_of_line l = Some g" using that assms(1) by (simp add: line_consistent_def)
    moreover have "\<not> startsWith l H2" using that(1) heading_not_task [of l 0] by auto
    ultimately have "m g = None" using assms(2) by auto
    then show ?thesis by (simp add: conflict_def)
  qed
  show "settled S m l" using 1 2 by (auto simp: settled_def split: option.splits)
qed



text \<open>The lines the walk writes for a body line.\<close>

lemma body_out_cases:
  assumes "x \<in> set (body_out S m l)"
  obtains "x = l" "startsWith l H2 \<or> gid_of_line l = None \<or> (\<exists>g. gid_of_line l = Some g \<and> m g = None)"
  | g t where "gid_of_line l = Some g" "m g = Some t" "shown S t"
      "x = formatTaskLine t (showDueDates S) (showAssignees S)"
  using assms by (auto simp: body_out_def shown_def split: option.splits if_splits)

lemma walked_line_settled:
  assumes R: "safe_list pg R" and l: "l \<in> set body" "line_consistent l"
    and x: "x \<in> set (body_out S (taskMap R) l)"
  shows "settled S (taskMap R) x"
  using x
proof (cases rule: body_out_cases)
  case 1
  then show ?thesis using kept_line_settled(1) [OF l(2)] by simp
next
  case (2 g t)
  have "t \<in> set R" using safe_list_map(1) [OF R 2(2)] .
  from format_line_settled(1) [OF R this 2(3)] show ?thesis using 2(4) by simp
qed



section \<open>The frontmatter block after a pass\<close>














section \<open>The body of a note after a pass\<close>








section \<open>The clock and the block of a pass\<close>



section \<open>A note of one task line, with and without a frontmatter block\<close>











section \<open>Two passes in a row\<close>




section \<open>Section placement\<close>
















end
